theory Spec2Isabelle
  imports Main "HOL-Library.Word"
begin

section \<open>Data model\<close>

text \<open>
  A JavaScript string is a sequence of UTF-16 code units; \<open>length\<close> and
  \<open>substring\<close> count code units. ASCII literals of the source are written with
  \<open>ascii\<close>, the two Chinese diagnostics as their code units.
\<close>

type_synonym jsstring = "16 word list"

definition ascii :: "string \<Rightarrow> jsstring" where
  "ascii s = map of_char s"

text \<open>\<open>String.prototype.trim\<close>: white space and line terminators are removed at both ends.\<close>

definition is_white_space :: "16 word \<Rightarrow> bool" where
  "is_white_space c =
     (c \<in> {0x9, 0xA, 0xB, 0xC, 0xD, 0x20, 0xA0, 0x1680, 0x2028, 0x2029, 0x202F, 0x205F, 0x3000, 0xFEFF}
      \<or> (0x2000 \<le> c \<and> c \<le> 0x200A))"

definition trim :: "jsstring \<Rightarrow> jsstring" where
  "trim s = rev (dropWhile is_white_space (rev (dropWhile is_white_space s)))"

text \<open>
  The interface \<open>ApiKeyStatus\<close> of the types module. The four values of its
  \<open>status\<close> field are the spec's Available, InUse (\<open>active\<close>), Exhausted and
  Errored (\<open>error\<close>). \<open>requestCount\<close> is a counter that only grows by one, a natural
  number here; \<open>lastUsed\<close> is a millisecond time stamp.
\<close>

datatype key_status = available | active | exhausted | error

record ApiKeyStatus =
  key :: jsstring
  status :: key_status
  lastUsed :: "int option"
  requestCount :: nat
  lastResetDate :: jsstring
  errorMessage :: "jsstring option"

text \<open>
  The class \<open>ApiKeyManager\<close>. A listener is a function object; the class compares
  listeners by reference (\<open>l !== listener\<close>), so a listener is represented by its
  identity. What a call of a listener does is outside the class: the field
  \<open>delivered\<close> records, in order, every call the manager makes to a listener together
  with the sequence of credential states it passes. Listeners are taken to return
  normally and not to call back into the manager.
\<close>

type_synonym listener = nat

record ApiKeyManager =
  keys :: "ApiKeyStatus list"
  currentIndex :: nat
  listeners :: "listener list"
  delivered :: "(listener \<times> ApiKeyStatus list) list"

text \<open>
  Reading \<open>this.keys[this.currentIndex]\<close> out of range yields \<open>undefined\<close>, and the
  property access on it throws a \<open>TypeError\<close>.
\<close>

datatype exn = TypeError

section \<open>ApiKeyManager\<close>

definition new_ApiKeyManager :: "jsstring \<Rightarrow> jsstring list \<Rightarrow> ApiKeyManager" where
  "new_ApiKeyManager today apiKeys =
     \<lparr>keys = map (\<lambda>k. \<lparr>key = trim k, status = available, lastUsed = None,
                        requestCount = 0, lastResetDate = today, errorMessage = None\<rparr>) apiKeys,
      currentIndex = 0, listeners = [], delivered = []\<rparr>"

text \<open>
  \<open>subscribe\<close> appends the listener and returns a closure over it; the closure
  replaces the listener list by the list filtered with \<open>l !== listener\<close>.
\<close>

definition unsubscribe :: "listener \<Rightarrow> ApiKeyManager \<Rightarrow> ApiKeyManager" where
  "unsubscribe listener m = m\<lparr>listeners := filter (\<lambda>l. l \<noteq> listener) (listeners m)\<rparr>"

definition subscribe ::
  "listener \<Rightarrow> ApiKeyManager \<Rightarrow> ApiKeyManager \<times> (ApiKeyManager \<Rightarrow> ApiKeyManager)" where
  "subscribe listener m = (m\<lparr>listeners := listeners m @ [listener]\<rparr>, unsubscribe listener)"

definition notify :: "ApiKeyManager \<Rightarrow> ApiKeyManager" where
  "notify m = m\<lparr>delivered := delivered m @ map (\<lambda>l. (l, keys m)) (listeners m)\<rparr>"

text \<open>\<open>today\<close> is the value of \<open>new Date().toISOString().split('T')[0]\<close> at the call.\<close>

definition reset_key :: "jsstring \<Rightarrow> ApiKeyStatus \<Rightarrow> ApiKeyStatus" where
  "reset_key today keyStatus =
     (if lastResetDate keyStatus \<noteq> today
      then keyStatus\<lparr>status := available, requestCount := 0,
                     lastResetDate := today, errorMessage := None\<rparr>
      else keyStatus)"

definition checkDailyReset :: "jsstring \<Rightarrow> ApiKeyManager \<Rightarrow> ApiKeyManager" where
  "checkDailyReset today m = m\<lparr>keys := map (reset_key today) (keys m)\<rparr>"

text \<open>
  The reset of \<open>getCurrentKey\<close> is done before the read that may throw, so the
  manager is returned in both cases.
\<close>

definition getCurrentKey :: "jsstring \<Rightarrow> ApiKeyManager \<Rightarrow> ApiKeyManager \<times> (exn + jsstring)" where
  "getCurrentKey today m =
     (let m' = checkDailyReset today m in
      (m', if currentIndex m' < length (keys m')
           then Inr (key (keys m' ! currentIndex m')) else Inl TypeError))"

definition getKeyStatuses :: "jsstring \<Rightarrow> ApiKeyManager \<Rightarrow> ApiKeyManager \<times> ApiKeyStatus list" where
  "getKeyStatuses today m = (let m' = checkDailyReset today m in (m', keys m'))"

definition update_current :: "(ApiKeyStatus \<Rightarrow> ApiKeyStatus) \<Rightarrow> ApiKeyManager \<Rightarrow> ApiKeyManager" where
  "update_current f m = m\<lparr>keys := (keys m)[currentIndex m := f (keys m ! currentIndex m)]\<rparr>"

text \<open>\<open>now\<close> is the value of \<open>Date.now()\<close> at the call.\<close>

definition markAsActive :: "int \<Rightarrow> ApiKeyManager \<Rightarrow> exn + ApiKeyManager" where
  "markAsActive now m =
     (if currentIndex m < length (keys m)
      then Inr (notify (update_current (\<lambda>k. k\<lparr>status := active, lastUsed := Some now\<rparr>) m))
      else Inl TypeError)"

definition markSuccess :: "int \<Rightarrow> ApiKeyManager \<Rightarrow> exn + ApiKeyManager" where
  "markSuccess now m =
     (if currentIndex m < length (keys m)
      then Inr (notify (update_current
             (\<lambda>current. current\<lparr>status := available, requestCount := requestCount current + 1,
                                lastUsed := Some now\<rparr>) m))
      else Inl TypeError)"

text \<open>The diagnostic of an exhausted key, seven code units (``today's quota is used up'').\<close>

definition msg_quota_used_up :: jsstring where
  "msg_quota_used_up = [0x4ECA, 0x65E5, 0x6D41, 0x91CF, 0x5DF2, 0x7528, 0x5B8C]"

text \<open>
  The \<open>while\<close> loop of \<open>markExhaustedAndRotate\<close>: \<open>attempts\<close> counts the
  iterations, the cursor is advanced modulo the length before each test.
\<close>

function rotate_loop :: "ApiKeyManager \<Rightarrow> nat \<Rightarrow> bool \<times> ApiKeyManager" where
  "rotate_loop m attempts =
     (if attempts < length (keys m) then
        (let m' = m\<lparr>currentIndex := (currentIndex m + 1) mod length (keys m)\<rparr> in
         if status (keys m' ! currentIndex m') = available then (True, notify m')
         else rotate_loop m' (attempts + 1))
      else (False, m))"
  by pat_completeness auto
termination
  by (relation "measure (\<lambda>(m, attempts). length (keys m) - attempts)") auto

declare rotate_loop.simps [simp del]

definition markExhaustedAndRotate :: "ApiKeyManager \<Rightarrow> exn + bool \<times> ApiKeyManager" where
  "markExhaustedAndRotate m =
     (if currentIndex m < length (keys m)
      then Inr (rotate_loop
             (notify (update_current
                (\<lambda>k. k\<lparr>status := exhausted, errorMessage := Some msg_quota_used_up\<rparr>) m)) 0)
      else Inl TypeError)"

definition markError :: "jsstring \<Rightarrow> ApiKeyManager \<Rightarrow> exn + ApiKeyManager" where
  "markError err m =
     (if currentIndex m < length (keys m)
      then Inr (notify (update_current (\<lambda>k. k\<lparr>status := error, errorMessage := Some err\<rparr>) m))
      else Inl TypeError)"

definition getCurrentIndex :: "ApiKeyManager \<Rightarrow> nat" where
  "getCurrentIndex m = currentIndex m"

definition hasAvailableKey :: "jsstring \<Rightarrow> ApiKeyManager \<Rightarrow> ApiKeyManager \<times> bool" where
  "hasAvailableKey today m =
     (let m' = checkDailyReset today m in (m', list_ex (\<lambda>k. status k = available) (keys m')))"


text \<open>
  The positions a forward circular scan visits after position \<open>i\<close> in a pool of
  \<open>n\<close> entries: the \<open>k\<close> positions \<open>i + 1\<close>, \<open>i + 2\<close>, ... taken modulo \<open>n\<close>.
\<close>

definition scan_order :: "nat \<Rightarrow> nat \<Rightarrow> nat \<Rightarrow> nat list" where
  "scan_order i n k = map (\<lambda>d. (i + d) mod n) [Suc 0..<Suc k]"

text \<open>The number of keys in state \<open>available\<close>.\<close>

definition n_available :: "ApiKeyManager \<Rightarrow> nat" where
  "n_available m = length (filter (\<lambda>k. status k = available) (keys m))"

text \<open>
  A caller that calls \<open>markExhaustedAndRotate\<close> \<open>n\<close> times in succession and
  collects the results.
\<close>

fun rotations :: "nat \<Rightarrow> ApiKeyManager \<Rightarrow> exn + bool list \<times> ApiKeyManager" where
  "rotations 0 m = Inr ([], m)"
| "rotations (Suc n) m =
     (case markExhaustedAndRotate m of
        Inl e \<Rightarrow> Inl e
      | Inr (b, m') \<Rightarrow>
          (case rotations n m' of
             Inl e \<Rightarrow> Inl e
           | Inr (bs, m'') \<Rightarrow> Inr (b # bs, m'')))"

text \<open>
  The calls a client can make on the pool, and the pool a call leaves behind on a given
  day. The first three are the reads; a mark that throws has changed nothing.
\<close>

datatype pool_call =
    GetCurrentKey | HasAvailableKey | GetKeyStatuses
  | MarkAsActive int | MarkSuccess int | MarkExhaustedAndRotate | MarkError jsstring

fun is_read :: "pool_call \<Rightarrow> bool" where
  "is_read GetCurrentKey = True"
| "is_read HasAvailableKey = True"
| "is_read GetKeyStatuses = True"
| "is_read _ = False"

fun after_call :: "jsstring \<Rightarrow> pool_call \<Rightarrow> ApiKeyManager \<Rightarrow> ApiKeyManager" where
  "after_call today GetCurrentKey m = fst (getCurrentKey today m)"
| "after_call today HasAvailableKey m = fst (hasAvailableKey today m)"
| "after_call today GetKeyStatuses m = fst (getKeyStatuses today m)"
| "after_call today (MarkAsActive now) m = (case markAsActive now m of Inl e \<Rightarrow> m | Inr m' \<Rightarrow> m')"
| "after_call today (MarkSuccess now) m = (case markSuccess now m of Inl e \<Rightarrow> m | Inr m' \<Rightarrow> m')"
| "after_call today MarkExhaustedAndRotate m =
     (case markExhaustedAndRotate m of Inl e \<Rightarrow> m | Inr (switched, m') \<Rightarrow> m')"
| "after_call today (MarkError err) m = (case markError err m of Inl e \<Rightarrow> m | Inr m' \<Rightarrow> m')"

fun after_calls :: "jsstring \<Rightarrow> pool_call list \<Rightarrow> ApiKeyManager \<Rightarrow> ApiKeyManager" where
  "after_calls today [] m = m"
| "after_calls today (c # cs) m = after_calls today cs (after_call today c m)"

section \<open>Objects and references\<close>

text \<open>
  The definitions above treat the array \<open>this.keys\<close> as a value. What a caller can do
  with an array it got from the manager depends on what is shared, so here the arrays
  and the key objects live in a store and are named by references. An address is an
  index into the store; allocation appends. \<open>[...arr]\<close> allocates a new array with
  the elements (the references) of \<open>arr\<close>.
\<close>

type_synonym ref = nat

record store =
  objects :: "ApiKeyStatus list"
  arrays :: "ref list list"

definition alloc_array :: "ref list \<Rightarrow> store \<Rightarrow> ref \<times> store" where
  "alloc_array xs h = (length (arrays h), h\<lparr>arrays := arrays h @ [xs]\<rparr>)"

definition spread :: "ref \<Rightarrow> store \<Rightarrow> ref \<times> store" where
  "spread a h = alloc_array (arrays h ! a) h"

text \<open>
  The manager over the store: \<open>keys_ref\<close> is the private field \<open>this.keys\<close>, and
  \<open>ref_delivered\<close> records the array each listener call was given.
\<close>

record ref_manager =
  heap :: store
  keys_ref :: ref
  ref_listeners :: "listener list"
  ref_delivered :: "(listener \<times> ref) list"

text \<open>The constructor: \<open>apiKeys.map(...)\<close> makes one new object per key and one new array.\<close>

definition ref_new :: "jsstring \<Rightarrow> jsstring list \<Rightarrow> ref_manager" where
  "ref_new today apiKeys =
     \<lparr>heap = \<lparr>objects = map (\<lambda>k. \<lparr>key = trim k, status = available, lastUsed = None,
                          requestCount = 0, lastResetDate = today, errorMessage = None\<rparr>) apiKeys,
              arrays = [[0..<length apiKeys]]\<rparr>,
      keys_ref = 0, ref_listeners = [], ref_delivered = []\<rparr>"

text \<open>\<open>checkDailyReset\<close>: \<open>forEach\<close> over \<open>this.keys\<close> assigns to the fields of each object.\<close>

definition ref_checkDailyReset :: "jsstring \<Rightarrow> ref_manager \<Rightarrow> ref_manager" where
  "ref_checkDailyReset today rm =
     rm\<lparr>heap := fold (\<lambda>r h. h\<lparr>objects := (objects h)[r := reset_key today (objects h ! r)]\<rparr>)
                   (arrays (heap rm) ! keys_ref rm) (heap rm)\<rparr>"

definition ref_getKeyStatuses :: "jsstring \<Rightarrow> ref_manager \<Rightarrow> ref_manager \<times> ref" where
  "ref_getKeyStatuses today rm =
     (let rm' = ref_checkDailyReset today rm;
          (a, h) = spread (keys_ref rm') (heap rm')
      in (rm'\<lparr>heap := h\<rparr>, a))"

text \<open>\<open>notify\<close>: the spread is evaluated once for each listener.\<close>

definition ref_notify :: "ref_manager \<Rightarrow> ref_manager" where
  "ref_notify rm =
     fold (\<lambda>listener rm.
             let (a, h) = spread (keys_ref rm) (heap rm)
             in rm\<lparr>heap := h, ref_delivered := ref_delivered rm @ [(listener, a)]\<rparr>)
          (ref_listeners rm) rm"

text \<open>The pool's credential states: the objects the array \<open>this.keys\<close> refers to, in order.\<close>

definition pool_state :: "ref_manager \<Rightarrow> ApiKeyStatus list" where
  "pool_state rm = map (\<lambda>r. objects (heap rm) ! r) (arrays (heap rm) ! keys_ref rm)"

text \<open>
  What a caller can do with an array reference \<open>a\<close> it holds: change the array (any
  assignment to a slot, \<open>push\<close>, \<open>pop\<close>, \<open>splice\<close>, \<open>sort\<close> leaves some new
  content \<open>xs\<close>), or change a field of the object in slot \<open>i\<close>.
\<close>

definition set_array :: "ref \<Rightarrow> ref list \<Rightarrow> store \<Rightarrow> store" where
  "set_array a xs h = h\<lparr>arrays := (arrays h)[a := xs]\<rparr>"

definition write_field :: "ref \<Rightarrow> nat \<Rightarrow> (ApiKeyStatus \<Rightarrow> ApiKeyStatus) \<Rightarrow> store \<Rightarrow> store" where
  "write_field a i f h =
     h\<lparr>objects := (objects h)[arrays h ! a ! i := f (objects h ! (arrays h ! a ! i))]\<rparr>"

text \<open>The store is well formed for the manager: \<open>this.keys\<close> is an array of key objects.\<close>

definition ref_wf :: "ref_manager \<Rightarrow> bool" where
  "ref_wf rm =
     (keys_ref rm < length (arrays (heap rm)) \<and>
      list_all (\<lambda>r. r < length (objects (heap rm))) (arrays (heap rm) ! keys_ref rm))"

section \<open>GeminiService.executeWithRetry\<close>

text \<open>
  A value that the \<open>catch\<close> block uses as a text: \<open>Str s\<close> is the string \<open>s\<close>;
  \<open>NotStr\<close> is a value that is not a string and has no method \<open>includes\<close> or
  \<open>substring\<close> (\<open>undefined\<close>, \<open>null\<close>, a number, a boolean, a plain object, a
  function), so that calling either of them on it throws a \<open>TypeError\<close>.
\<close>

datatype js_text = Str jsstring | NotStr

text \<open>
  The value an operation rejects with, as the \<open>catch\<close> block reads it.
  \<open>err_message\<close> is \<open>error?.message\<close>: \<open>None\<close> when it is missing or a falsy value
  that is not a string (\<open>undefined\<close>, \<open>null\<close>, \<open>0\<close>, \<open>false\<close>; also when the
  rejection itself is \<open>undefined\<close> or \<open>null\<close>), \<open>Some (Str s)\<close> when it is the string
  \<open>s\<close>, \<open>Some NotStr\<close> when it is a truthy value that is not a string.
  \<open>err_status\<close> and \<open>response_status\<close> are \<open>error?.status\<close> and
  \<open>error?.response?.status\<close>: a status that is present is a number, as the HTTP
  status of the remote client is. \<open>json\<close> is what
  \<open>JSON.stringify(error)\<close> does: it returns a string, or \<open>undefined\<close> (\<open>Inr NotStr\<close>:
  for \<open>undefined\<close>, a function, a symbol), or throws a \<open>TypeError\<close> (a circular
  structure, a \<open>BigInt\<close>).
\<close>

datatype js_error =
  JsError (err_message: "js_text option") (err_status: "int option")
          (response_status: "int option") (json: "exn + js_text")

text \<open>
  \<open>error?.message || JSON.stringify(error)\<close>: a missing or empty message is falsy, and
  only then is \<open>JSON.stringify\<close> called.
\<close>

definition errorMessage_of :: "js_error \<Rightarrow> exn + js_text" where
  "errorMessage_of e =
     (case err_message e of
        Some (Str s) \<Rightarrow> if s = [] then json e else Inr (Str s)
      | Some NotStr \<Rightarrow> Inr NotStr
      | None \<Rightarrow> json e)"

text \<open>\<open>error?.status || error?.response?.status\<close>: a missing or zero status is falsy.\<close>

definition status_of :: "js_error \<Rightarrow> int option" where
  "status_of e =
     (case err_status e of
        Some n \<Rightarrow> if n = 0 then response_status e else Some n
      | None \<Rightarrow> response_status e)"

fun starts_with :: "jsstring \<Rightarrow> jsstring \<Rightarrow> bool" where
  "starts_with s [] = True"
| "starts_with [] (c # p) = False"
| "starts_with (x # s) (c # p) = (x = c \<and> starts_with s p)"

fun includes_js :: "jsstring \<Rightarrow> jsstring \<Rightarrow> bool" where
  "includes_js [] p = (p = [])"
| "includes_js (x # s) p = (starts_with (x # s) p \<or> includes_js s p)"

text \<open>\<open>errorMessage.includes(p)\<close> and \<open>errorMessage.substring(0, n)\<close>.\<close>

fun includes_of :: "js_text \<Rightarrow> jsstring \<Rightarrow> exn + bool" where
  "includes_of (Str s) p = Inr (includes_js s p)"
| "includes_of NotStr p = Inl TypeError"

fun substring_of :: "js_text \<Rightarrow> nat \<Rightarrow> exn + jsstring" where
  "substring_of (Str s) n = Inr (take n s)"
| "substring_of NotStr n = Inl TypeError"

text \<open>
  The two tests of the \<open>catch\<close> block,
  \<open>status === 429 || errorMessage.includes('429') || errorMessage.includes('RESOURCE_EXHAUSTED')\<close>
  and the same with \<open>404\<close> and \<open>NOT_FOUND\<close>. \<open>||\<close> evaluates its right operand only
  when the left one is false, so a status that matches decides the test without a look
  at the message; otherwise the first \<open>includes\<close> is called, and throws on a message
  that is not a string.
\<close>

definition rate_limit_test :: "int option \<Rightarrow> js_text \<Rightarrow> exn + bool" where
  "rate_limit_test st msg =
     (if st = Some 429 then Inr True
      else (case includes_of msg (ascii ''429'') of
              Inl TypeError \<Rightarrow> Inl TypeError
            | Inr True \<Rightarrow> Inr True
            | Inr False \<Rightarrow> includes_of msg (ascii ''RESOURCE_EXHAUSTED'')))"

definition not_found_test :: "int option \<Rightarrow> js_text \<Rightarrow> exn + bool" where
  "not_found_test st msg =
     (if st = Some 404 then Inr True
      else (case includes_of msg (ascii ''404'') of
              Inl TypeError \<Rightarrow> Inl TypeError
            | Inr True \<Rightarrow> Inr True
            | Inr False \<Rightarrow> includes_of msg (ascii ''NOT_FOUND'')))"

text \<open>
  The kinds of failure: \<open>is_rate_limit e\<close> and \<open>is_not_found e\<close> say that the first and
  the second test hold of \<open>e\<close>; both can hold of one failure. \<open>unreadable e\<close> says that
  the \<open>catch\<close> block itself throws on \<open>e\<close> before it reaches a branch: at
  \<open>JSON.stringify\<close>, or at the first \<open>includes\<close>.
\<close>

definition is_rate_limit :: "js_error \<Rightarrow> bool" where
  "is_rate_limit e =
     (case errorMessage_of e of
        Inl TypeError \<Rightarrow> False
      | Inr msg \<Rightarrow> rate_limit_test (status_of e) msg = Inr True)"

definition is_not_found :: "js_error \<Rightarrow> bool" where
  "is_not_found e =
     (case errorMessage_of e of
        Inl TypeError \<Rightarrow> False
      | Inr msg \<Rightarrow> not_found_test (status_of e) msg = Inr True)"

definition unreadable :: "js_error \<Rightarrow> bool" where
  "unreadable e =
     (case errorMessage_of e of
        Inl TypeError \<Rightarrow> True
      | Inr msg \<Rightarrow> rate_limit_test (status_of e) msg = Inl TypeError)"

text \<open>
  The diagnostic passed to \<open>markError\<close> on a not-found failure, 21 code units
  (``API key invalid or model does not exist'').
\<close>

definition msg_invalid_key :: jsstring where
  "msg_invalid_key =
     [0x41, 0x50, 0x49, 0x20, 0x6B, 0x65, 0x79, 0x20, 0x7121, 0x6548, 0x6216, 0x20,
      0x6D, 0x6F, 0x64, 0x65, 0x6C, 0x20, 0x4E0D, 0x5B58, 0x5728]"

text \<open>
  What \<open>executeWithRetry\<close> throws: \<open>Thrown e\<close> is an error value propagating
  unchanged (the operation's own error at \<open>throw error\<close>, or a \<open>TypeError\<close> of the
  engine); the other four are the \<open>new Error(...)\<close> of the method, in source
  order: no key available before an attempt, rotation failed, resource not found
  (carrying the upstream message), and the attempt budget used up.
\<close>

datatype failure =
    Thrown js_error
  | NoAvailableKey
  | AllKeysExhausted
  | NotFoundError js_text
  | TooManyFailures

text \<open>
  The world outside the service is a state of type \<open>'w\<close>: the clock is read from
  it, and the awaited operation and the awaited two-second delay change it.
  \<open>type_error\<close> is the \<open>TypeError\<close> the engine throws: on a property access on
  \<open>undefined\<close>, on a call of a method that the value does not have, and in
  \<open>JSON.stringify\<close>. The model does not tell one \<open>TypeError\<close> from another.
\<close>

record 'w runtime =
  today_at :: "'w \<Rightarrow> jsstring"
  now_at :: "'w \<Rightarrow> int"
  delay :: "nat \<Rightarrow> 'w \<Rightarrow> 'w"
  type_error :: js_error

text \<open>
  The service with its surroundings. \<open>calls\<close> records the key of every invocation
  of the operation, in order. The operation is given the client built from the
  current key, here the key itself. Dispatches run one at a time: nothing else calls
  the manager while the operation or the delay is awaited.
\<close>

record 'w service =
  keyManager :: ApiKeyManager
  world :: 'w
  calls :: "jsstring list"

type_synonym ('w, 'r) operation = "jsstring \<Rightarrow> 'w \<Rightarrow> (js_error + 'r) \<times> 'w"

text \<open>
  The \<open>catch\<close> block. \<open>None\<close> as outcome means that the block ends normally and
  the loop goes on with \<open>attempts++\<close>. A \<open>TypeError\<close> raised inside the block, by
  \<open>JSON.stringify\<close>, by \<open>includes\<close>, by \<open>substring\<close> or by the manager, leaves the
  block at once: what comes after it in the block is not run.
\<close>

definition catch_block ::
  "'w runtime \<Rightarrow> js_error \<Rightarrow> 'w service \<Rightarrow> (failure + 'r) option \<times> 'w service" where
  "catch_block rt e s =
     (case errorMessage_of e of
        Inl TypeError \<Rightarrow> (Some (Inl (Thrown (type_error rt))), s)
      | Inr msg \<Rightarrow>
          (case rate_limit_test (status_of e) msg of
             Inl TypeError \<Rightarrow> (Some (Inl (Thrown (type_error rt))), s)
           | Inr True \<Rightarrow>
               (case markExhaustedAndRotate (keyManager s) of
                  Inl TypeError \<Rightarrow> (Some (Inl (Thrown (type_error rt))), s)
                | Inr (switched, m') \<Rightarrow>
                    if \<not> switched then (Some (Inl AllKeysExhausted), s\<lparr>keyManager := m'\<rparr>)
                    else (None, s\<lparr>keyManager := m', world := delay rt 2000 (world s)\<rparr>))
           | Inr False \<Rightarrow>
               (case not_found_test (status_of e) msg of
                  Inl TypeError \<Rightarrow> (Some (Inl (Thrown (type_error rt))), s)
                | Inr True \<Rightarrow>
                    (case markError msg_invalid_key (keyManager s) of
                       Inl TypeError \<Rightarrow> (Some (Inl (Thrown (type_error rt))), s)
                     | Inr m' \<Rightarrow> (Some (Inl (NotFoundError msg)), s\<lparr>keyManager := m'\<rparr>))
                | Inr False \<Rightarrow>
                    (case substring_of msg 50 of
                       Inl TypeError \<Rightarrow> (Some (Inl (Thrown (type_error rt))), s)
                     | Inr truncated \<Rightarrow>
                         (case markError truncated (keyManager s) of
                            Inl TypeError \<Rightarrow> (Some (Inl (Thrown (type_error rt))), s)
                          | Inr m' \<Rightarrow> (Some (Inl (Thrown e)), s\<lparr>keyManager := m'\<rparr>))))))"

text \<open>
  The body of the \<open>while\<close> loop: the check for an available key, the \<open>try\<close>
  block, and the \<open>catch\<close> block for whatever the \<open>try\<close> block throws.
\<close>

definition attempt ::
  "'w runtime \<Rightarrow> ('w, 'r) operation \<Rightarrow> 'w service \<Rightarrow> (failure + 'r) option \<times> 'w service" where
  "attempt rt operation s =
     (case hasAvailableKey (today_at rt (world s)) (keyManager s) of
        (m1, False) \<Rightarrow> (Some (Inl NoAvailableKey), s\<lparr>keyManager := m1\<rparr>)
      | (m1, True) \<Rightarrow>
          (case markAsActive (now_at rt (world s)) m1 of
             Inl TypeError \<Rightarrow> catch_block rt (type_error rt) (s\<lparr>keyManager := m1\<rparr>)
           | Inr m2 \<Rightarrow>
               (case getCurrentKey (today_at rt (world s)) m2 of
                  (m3, Inl TypeError) \<Rightarrow> catch_block rt (type_error rt) (s\<lparr>keyManager := m3\<rparr>)
                | (m3, Inr currentKey) \<Rightarrow>
                    (case operation currentKey (world s) of
                       (Inl e, w') \<Rightarrow>
                         catch_block rt e
                           (s\<lparr>keyManager := m3, world := w', calls := calls s @ [currentKey]\<rparr>)
                     | (Inr result, w') \<Rightarrow>
                         (case markSuccess (now_at rt w') m3 of
                            Inl TypeError \<Rightarrow>
                              catch_block rt (type_error rt)
                                (s\<lparr>keyManager := m3, world := w', calls := calls s @ [currentKey]\<rparr>)
                          | Inr m4 \<Rightarrow>
                              (Some (Inr result),
                               s\<lparr>keyManager := m4, world := w',
                                 calls := calls s @ [currentKey]\<rparr>))))))"

function executeWithRetry_loop ::
  "'w runtime \<Rightarrow> ('w, 'r) operation \<Rightarrow> nat \<Rightarrow> nat \<Rightarrow> 'w service \<Rightarrow> (failure + 'r) \<times> 'w service" where
  "executeWithRetry_loop rt operation maxRetries attempts s =
     (if attempts < maxRetries then
        (case attempt rt operation s of
           (Some outcome, s') \<Rightarrow> (outcome, s')
         | (None, s') \<Rightarrow> executeWithRetry_loop rt operation maxRetries (attempts + 1) s')
      else (Inl TooManyFailures, s))"
  by pat_completeness auto
termination
  by (relation "measure (\<lambda>(rt, operation, maxRetries, attempts, s). maxRetries - attempts)") auto

declare executeWithRetry_loop.simps [simp del]

definition executeWithRetry ::
  "'w runtime \<Rightarrow> ('w, 'r) operation \<Rightarrow> nat \<Rightarrow> 'w service \<Rightarrow> (failure + 'r) \<times> 'w service" where
  "executeWithRetry rt operation maxRetries s = executeWithRetry_loop rt operation maxRetries 0 s"


text \<open>Every diagnostic stored in the pool has at most 50 code units.\<close>

definition bounded_diagnostics :: "ApiKeyManager \<Rightarrow> bool" where
  "bounded_diagnostics m =
     list_all (\<lambda>k. case errorMessage k of None \<Rightarrow> True | Some t \<Rightarrow> length t \<le> 50) (keys m)"

text \<open>No key of the pool is in state \<open>active\<close>.\<close>

definition none_active :: "ApiKeyManager \<Rightarrow> bool" where
  "none_active m = list_all (\<lambda>k. status k \<noteq> active) (keys m)"

section \<open>Concrete pools\<close>

text \<open>
  Three keys, the first in state \<open>error\<close>, the cursor on the last one, one listener:
  a rotation from here wraps around and skips the first key.
\<close>

definition wrap_pool :: ApiKeyManager where
  "wrap_pool =
     \<lparr>keys =
        [\<lparr>key = ascii ''k1'', status = error, lastUsed = Some 5, requestCount = 2,
          lastResetDate = ascii ''2025-01-01'', errorMessage = Some (ascii ''boom'')\<rparr>,
         \<lparr>key = ascii ''k2'', status = available, lastUsed = None, requestCount = 0,
          lastResetDate = ascii ''2025-01-01'', errorMessage = None\<rparr>,
         \<lparr>key = ascii ''k3'', status = available, lastUsed = Some 7, requestCount = 1,
          lastResetDate = ascii ''2025-01-01'', errorMessage = None\<rparr>],
      currentIndex = 2, listeners = [0], delivered = []\<rparr>"

text \<open>The pool the service builds from the keys \<open>k1\<close> and \<open>k2\<close> on 2025-01-01.\<close>

definition two_key_pool :: ApiKeyManager where
  "two_key_pool = new_ApiKeyManager (ascii ''2025-01-01'') [ascii ''k1'', ascii ''k2'']"

text \<open>
  The same pool after \<open>markAsActive\<close> at time 5, as the dispatcher leaves it when it
  awaits the operation: the key at the cursor is \<open>active\<close>, the other one \<open>available\<close>.
\<close>

definition active_pool :: ApiKeyManager where
  "active_pool = (case markAsActive 5 two_key_pool of Inr m \<Rightarrow> m | Inl e \<Rightarrow> two_key_pool)"

text \<open>The pool built from the key \<open>k1\<close> on 2025-01-01, with listener 7 subscribed.\<close>

definition one_key_pool :: ApiKeyManager where
  "one_key_pool = fst (subscribe 7 (new_ApiKeyManager (ascii ''2025-01-01'') [ascii ''k1'']))"

text \<open>The same two keys in the store, with listener 7 subscribed.\<close>

definition ref_two_key_pool :: ref_manager where
  "ref_two_key_pool =
     (ref_new (ascii ''2025-01-01'') [ascii ''k1'', ascii ''k2''])\<lparr>ref_listeners := [7]\<rparr>"

text \<open>
  A runtime whose world is the number of milliseconds elapsed: the date stays
  2025-01-01, the clock shows the elapsed time, a delay adds its length.
\<close>

definition fixed_runtime :: "nat runtime" where
  "fixed_runtime =
     \<lparr>today_at = (\<lambda>w. ascii ''2025-01-01''), now_at = (\<lambda>w. int w),
      delay = (\<lambda>ms w. w + ms),
      type_error =
        JsError (Some (Str (ascii ''Cannot set properties of undefined''))) None None
          (Inr (Str (ascii ''{}'')))\<rparr>"

text \<open>Operations: each takes one millisecond; the failures carry what the message says.\<close>

definition rate_limited :: js_error where
  "rate_limited =
     JsError (Some (Str (ascii ''quota exceeded''))) (Some 429) None (Inr (Str (ascii ''{}'')))"

definition not_found :: js_error where
  "not_found =
     JsError (Some (Str (ascii ''model is unknown''))) (Some 404) None (Inr (Str (ascii ''{}'')))"

definition verbose_failure :: js_error where
  "verbose_failure = JsError (Some (Str (replicate 60 0x78))) None None (Inr (Str (ascii ''{}'')))"

text \<open>
  A not-found failure whose message contains \<open>429\<close>, and one whose message is a
  number; and the rejection with \<open>undefined\<close>, as of \<open>Promise.reject()\<close>.
\<close>

definition not_found_429 :: js_error where
  "not_found_429 =
     JsError (Some (Str (ascii ''request 4291: model not found''))) (Some 404) None
       (Inr (Str (ascii ''{}'')))"

definition not_found_numeric :: js_error where
  "not_found_numeric = JsError (Some NotStr) (Some 404) None (Inr (Str (ascii ''{}'')))"


definition always_rate_limited :: "(nat, jsstring) operation" where
  "always_rate_limited k w = (Inl rate_limited, w + 1)"

definition always_not_found :: "(nat, jsstring) operation" where
  "always_not_found k w = (Inl not_found, w + 1)"

definition always_verbose_failure :: "(nat, jsstring) operation" where
  "always_verbose_failure k w = (Inl verbose_failure, w + 1)"

definition always_not_found_429 :: "(nat, jsstring) operation" where
  "always_not_found_429 k w = (Inl not_found_429, w + 1)"

definition always_not_found_numeric :: "(nat, jsstring) operation" where
  "always_not_found_numeric k w = (Inl not_found_numeric, w + 1)"


definition always_ok :: "(nat, jsstring) operation" where
  "always_ok k w = (Inr (ascii ''ok''), w + 1)"

definition service_of :: "ApiKeyManager \<Rightarrow> nat service" where
  "service_of m = \<lparr>keyManager = m, world = 0, calls = []\<rparr>"

section \<open>Rotation\<close>

lemma rotate_loop_frame:
  "keys (snd (rotate_loop m a)) = keys m \<and> listeners (snd (rotate_loop m a)) = listeners m"
proof (induction m a rule: rotate_loop.induct)
  case (1 m attempts)
  show ?case
    using 1 by (subst (1 2) rotate_loop.simps) (simp add: Let_def notify_def)
qed

lemma scan_order_0: "scan_order i n 0 = []"
  by (simp add: scan_order_def)

lemma scan_order_Suc: "scan_order i n (Suc k) = (i + 1) mod n # scan_order ((i + 1) mod n) n k"
proof -
  have "[Suc 0..<Suc (Suc k)] = Suc 0 # map Suc [Suc 0..<Suc k]"
    by (simp only: map_Suc_upt upt_conv_Cons[of "Suc 0" "Suc (Suc k)"])
  then show ?thesis
    unfolding scan_order_def by (simp add: mod_add_left_eq del: upt_Suc)
qed

lemma scan_order_snoc: "scan_order i n (Suc k) = scan_order i n k @ [(i + Suc k) mod n]"
  by (simp add: scan_order_def)

lemma rotate_loop_find:
  "a \<le> length (keys m) \<Longrightarrow> currentIndex m < length (keys m) \<Longrightarrow>
   rotate_loop m a =
     (case find (\<lambda>j. status (keys m ! j) = available)
             (scan_order (currentIndex m) (length (keys m)) (length (keys m) - a)) of
        None \<Rightarrow> (False, m\<lparr>currentIndex := (currentIndex m + (length (keys m) - a)) mod length (keys m)\<rparr>)
      | Some j \<Rightarrow> (True, notify (m\<lparr>currentIndex := j\<rparr>)))"
proof (induction m a rule: rotate_loop.induct)
  case (1 m a)
  let ?n = "length (keys m)"
  let ?i = "currentIndex m"
  show ?case
  proof (cases "a < ?n")
    case False
    with 1(2,3) show ?thesis
      by (subst rotate_loop.simps) (simp add: scan_order_0)
  next
    case True
    define m' where "m' = m\<lparr>currentIndex := (?i + 1) mod ?n\<rparr>"
    have k': "keys m' = keys m" and c': "currentIndex m' = (?i + 1) mod ?n"
      by (simp_all add: m'_def)
    have sub: "?n - a = Suc (?n - Suc a)"
      using True by simp
    show ?thesis
    proof (cases "status (keys m ! ((?i + 1) mod ?n)) = available")
      case av: True
      have "rotate_loop m a = (True, notify m')"
        using True av by (subst rotate_loop.simps) (simp add: Let_def m'_def)
      then show ?thesis
        using av by (simp add: sub scan_order_Suc m'_def)
    next
      case nav: False
      have step: "rotate_loop m a = rotate_loop m' (a + 1)"
        using True nav by (subst rotate_loop.simps) (simp add: Let_def m'_def)
      have "0 < ?n"
        using True by auto
      then have "Suc a \<le> length (keys m')" "currentIndex m' < length (keys m')"
        using True by (simp_all add: k' c')
      then have ih: "rotate_loop m' (a + 1) =
        (case find (\<lambda>j. status (keys m' ! j) = available)
             (scan_order (currentIndex m') (length (keys m')) (length (keys m') - (a + 1))) of
           None \<Rightarrow> (False, m'\<lparr>currentIndex := (currentIndex m' + (length (keys m') - (a + 1))) mod length (keys m')\<rparr>)
         | Some j \<Rightarrow> (True, notify (m'\<lparr>currentIndex := j\<rparr>)))"
        using 1(1)[of m'] True nav by (simp add: m'_def)
      have e: "?i + 1 + (?n - (a + 1)) = ?i + (?n - a)"
        using True by simp
      have idx: "((?i + 1) mod ?n + (?n - (a + 1))) mod ?n = (?i + (?n - a)) mod ?n"
        by (simp only: mod_add_left_eq e)
      have sel: "\<And>j. m'\<lparr>currentIndex := j\<rparr> = m\<lparr>currentIndex := j\<rparr>"
        by (simp add: m'_def)
      show ?thesis
        unfolding step ih sel k' c' idx using nav
        by (simp add: sub scan_order_Suc)
    qed
  qed
qed

lemma find_snoc_not:
  "\<not> P x \<Longrightarrow> find P (xs @ [x]) = find P xs"
  by (induction xs) auto

lemma markExhaustedAndRotate_find:
  assumes "currentIndex m < length (keys m)"
  shows "markExhaustedAndRotate m =
     (let m1 = notify (update_current
                (\<lambda>k. k\<lparr>status := exhausted, errorMessage := Some msg_quota_used_up\<rparr>) m) in
      Inr (case find (\<lambda>j. status (keys m1 ! j) = available)
             (scan_order (currentIndex m) (length (keys m)) (length (keys m) - 1)) of
        None \<Rightarrow> (False, m1)
      | Some j \<Rightarrow> (True, notify (m1\<lparr>currentIndex := j\<rparr>))))"
proof -
  define m1 where "m1 = notify (update_current
                (\<lambda>k. k\<lparr>status := exhausted, errorMessage := Some msg_quota_used_up\<rparr>) m)"
  let ?n = "length (keys m)"
  let ?i = "currentIndex m"
  have k1: "length (keys m1) = ?n" and c1: "currentIndex m1 = ?i"
    by (simp_all add: m1_def notify_def update_current_def)
  have ex: "status (keys m1 ! ?i) = exhausted"
    using assms by (simp add: m1_def notify_def update_current_def)
  have n_Suc: "?n = Suc (?n - 1)"
    using assms by simp
  have "(?i + ?n) mod ?n = ?i"
    using assms by simp
  then have "scan_order ?i ?n (Suc (?n - 1)) = scan_order ?i ?n (?n - 1) @ [?i]"
    unfolding scan_order_snoc using n_Suc by simp
  then have "scan_order ?i ?n ?n = scan_order ?i ?n (?n - 1) @ [?i]"
    using n_Suc by simp
  then have f: "find (\<lambda>j. status (keys m1 ! j) = available) (scan_order ?i ?n ?n) =
        find (\<lambda>j. status (keys m1 ! j) = available) (scan_order ?i ?n (?n - 1))"
    using ex by (simp add: find_snoc_not)
  have wrap: "m1\<lparr>currentIndex := ?i\<rparr> = m1"
    using c1[symmetric] by simp
  have "rotate_loop m1 0 = (case find (\<lambda>j. status (keys m1 ! j) = available)
             (scan_order ?i ?n (?n - 1)) of
        None \<Rightarrow> (False, m1)
      | Some j \<Rightarrow> (True, notify (m1\<lparr>currentIndex := j\<rparr>)))"
    using rotate_loop_find[of 0 m1] assms unfolding k1 c1 by (simp add: f wrap split: option.split)
  then show ?thesis
    using assms unfolding markExhaustedAndRotate_def Let_def m1_def[symmetric] by simp
qed


lemma length_scan_order: "length (scan_order i n k) = k"
  by (simp add: scan_order_def)

lemma nth_scan_order: "e < k \<Longrightarrow> scan_order i n k ! e = (i + Suc e) mod n"
  unfolding scan_order_def by (simp del: upt_Suc)

lemma scan_order_covers:
  assumes "i < n" "t < n" "t \<noteq> i"
  shows "t \<in> set (scan_order i n (n - 1))"
proof (cases "i < t")
  case True
  then have "t - i - 1 < n - 1" "(i + Suc (t - i - 1)) mod n = t"
    using assms by simp_all
  then show ?thesis
    by (metis nth_scan_order length_scan_order nth_mem)
next
  case False
  then have "t < i" using assms by simp
  then have "n - i + t - 1 < n - 1" "i + Suc (n - i + t - 1) = t + n"
    using assms by simp_all
  then have "n - i + t - 1 < n - 1" "(i + Suc (n - i + t - 1)) mod n = t"
    using assms by simp_all
  then show ?thesis
    by (metis nth_scan_order length_scan_order nth_mem)
qed

lemma find_scan_None:
  assumes "i < n" "\<not> P i" "find P (scan_order i n (n - 1)) = None" "t < n"
  shows "\<not> P t"
proof (cases "t = i")
  case True
  then show ?thesis using assms(2) by simp
next
  case False
  then have "t \<in> set (scan_order i n (n - 1))"
    using scan_order_covers[OF assms(1,4)] by simp
  then show ?thesis
    using assms(3) by (simp add: find_None_iff)
qed

lemma find_scan_Some:
  assumes "find P (scan_order i n (n - 1)) = Some j"
  shows "\<exists>d. 0 < d \<and> d < n \<and> j = (i + d) mod n \<and> P j \<and> (\<forall>e. 0 < e \<and> e < d \<longrightarrow> \<not> P ((i + e) mod n))"
proof -
  let ?xs = "scan_order i n (n - 1)"
  from assms obtain i0 where i0: "i0 < length ?xs" "P (?xs ! i0)" "j = ?xs ! i0"
      "\<forall>j'<i0. \<not> P (?xs ! j')"
    unfolding find_Some_iff by blast
  have d: "0 < Suc i0" "Suc i0 < n"
    using i0(1) by (simp_all add: length_scan_order)
  have j: "j = (i + Suc i0) mod n"
    using i0(1,3) by (simp add: nth_scan_order length_scan_order)
  have first: "\<forall>e. 0 < e \<and> e < Suc i0 \<longrightarrow> \<not> P ((i + e) mod n)"
  proof (intro allI impI)
    fix e assume e: "0 < e \<and> e < Suc i0"
    then obtain e' where e': "e = Suc e'" "e' < i0"
      by (cases e) auto
    then have "\<not> P (?xs ! e')" using i0(4) by blast
    moreover have "?xs ! e' = (i + e) mod n"
      using e' i0(1) by (simp add: nth_scan_order length_scan_order)
    ultimately show "\<not> P ((i + e) mod n)"
      by simp
  qed
  have "P j"
    using i0(2,3) by simp
  with d j first show ?thesis
    by (intro exI[of _ "Suc i0"] conjI)
qed

text \<open>
  What one call does to a pool with a valid cursor, in the form the later sections use:
  the entries after the call, and the state of the entry at the new cursor.
\<close>

lemma rotate_outcome:
  assumes "currentIndex m < length (keys m)"
  shows "\<exists>b m'. markExhaustedAndRotate m = Inr (b, m') \<and>
     keys m' = (keys m)[currentIndex m :=
                  (keys m ! currentIndex m)\<lparr>status := exhausted, errorMessage := Some msg_quota_used_up\<rparr>] \<and>
     listeners m' = listeners m \<and> currentIndex m' < length (keys m') \<and>
     (if b then status (keys m' ! currentIndex m') = available
      else currentIndex m' = currentIndex m \<and> list_all (\<lambda>k. status k \<noteq> available) (keys m'))"
proof -
  define m1 where "m1 = notify (update_current
                (\<lambda>k. k\<lparr>status := exhausted, errorMessage := Some msg_quota_used_up\<rparr>) m)"
  let ?n = "length (keys m)"
  let ?i = "currentIndex m"
  let ?P = "\<lambda>j. status (keys m1 ! j) = available"
  have k1: "keys m1 = (keys m)[?i := (keys m ! ?i)\<lparr>status := exhausted, errorMessage := Some msg_quota_used_up\<rparr>]"
    and c1: "currentIndex m1 = ?i" and l1: "listeners m1 = listeners m"
    by (simp_all add: m1_def notify_def update_current_def)
  have ex: "\<not> ?P ?i"
    using assms by (simp add: k1)
  have res: "markExhaustedAndRotate m =
      Inr (case find ?P (scan_order ?i ?n (?n - 1)) of
             None \<Rightarrow> (False, m1) | Some j \<Rightarrow> (True, notify (m1\<lparr>currentIndex := j\<rparr>)))"
    using markExhaustedAndRotate_find[OF assms] unfolding Let_def m1_def[symmetric] .
  show ?thesis
  proof (cases "find ?P (scan_order ?i ?n (?n - 1))")
    case None
    have "\<forall>t < length (keys m1). status (keys m1 ! t) \<noteq> available"
      using find_scan_None[of ?i ?n ?P, OF assms ex None] by (simp add: k1)
    then have "list_all (\<lambda>k. status k \<noteq> available) (keys m1)"
      by (simp add: list_all_length)
    then show ?thesis
      unfolding res None using k1 c1 l1 assms by (intro exI[of _ False] exI[of _ m1]) simp
  next
    case (Some j)
    from find_scan_Some[OF Some] obtain d where "j = (?i + d) mod ?n" and pj: "?P j"
      by blast
    moreover have "0 < ?n"
      using assms by auto
    ultimately have "j < ?n"
      by simp
    then show ?thesis
      unfolding res Some using k1 c1 l1 pj
      by (intro exI[of _ True] exI[of _ "notify (m1\<lparr>currentIndex := j\<rparr>)"]) (simp add: notify_def)
  qed
qed

text \<open>
  Claim C1. On a pool whose cursor is a valid index, \<open>markExhaustedAndRotate\<close> does
  not throw; it leaves every entry as it was except the one at the cursor, which becomes
  \<open>exhausted\<close> with the fixed diagnostic. If it returns true, the new cursor lies
  \<open>d\<close> positions after the old one in circular order, with \<open>0 < d < length\<close> (so the
  scan wraps at most once and never comes back to its start), the entry there is
  \<open>available\<close> (hence neither \<open>active\<close>, \<open>exhausted\<close> nor \<open>error\<close>), and every
  position visited before it is a different position whose entry is not available: it
  is the first available one. If it returns false, the cursor is where it was and no
  entry is available.
\<close>

theorem markExhaustedAndRotate_scan:
  assumes "currentIndex m < length (keys m)"
  shows "\<exists>b m'. markExhaustedAndRotate m = Inr (b, m') \<and>
     keys m' = (keys m)[currentIndex m :=
                  (keys m ! currentIndex m)\<lparr>status := exhausted, errorMessage := Some msg_quota_used_up\<rparr>] \<and>
     listeners m' = listeners m \<and>
     (b \<longrightarrow> (\<exists>d. 0 < d \<and> d < length (keys m) \<and>
                currentIndex m' = (currentIndex m + d) mod length (keys m) \<and>
                (\<forall>e. 0 < e \<and> e < d \<longrightarrow>
                   status (keys m' ! ((currentIndex m + e) mod length (keys m))) \<noteq> available \<and>
                   (currentIndex m + e) mod length (keys m) \<noteq> currentIndex m')) \<and>
           status (keys m' ! currentIndex m') = available \<and>
           currentIndex m' \<noteq> currentIndex m) \<and>
     (\<not> b \<longrightarrow> currentIndex m' = currentIndex m \<and> (\<forall>k \<in> set (keys m'). status k \<noteq> available))"
proof -
  define m1 where "m1 = notify (update_current
                (\<lambda>k. k\<lparr>status := exhausted, errorMessage := Some msg_quota_used_up\<rparr>) m)"
  let ?n = "length (keys m)"
  let ?i = "currentIndex m"
  let ?P = "\<lambda>j. status (keys m1 ! j) = available"
  have k1: "keys m1 = (keys m)[?i := (keys m ! ?i)\<lparr>status := exhausted, errorMessage := Some msg_quota_used_up\<rparr>]"
    and c1: "currentIndex m1 = ?i" and l1: "listeners m1 = listeners m"
    by (simp_all add: m1_def notify_def update_current_def)
  have ex: "\<not> ?P ?i"
    using assms by (simp add: k1)
  have res: "markExhaustedAndRotate m =
      Inr (case find ?P (scan_order ?i ?n (?n - 1)) of
             None \<Rightarrow> (False, m1) | Some j \<Rightarrow> (True, notify (m1\<lparr>currentIndex := j\<rparr>)))"
    using markExhaustedAndRotate_find[OF assms] unfolding Let_def m1_def[symmetric] .
  show ?thesis
  proof (cases "find ?P (scan_order ?i ?n (?n - 1))")
    case None
    have "\<forall>t < length (keys m1). status (keys m1 ! t) \<noteq> available"
      using find_scan_None[of ?i ?n ?P, OF assms ex None] by (simp add: k1)
    then have "\<forall>k \<in> set (keys m1). status k \<noteq> available"
      by (auto simp: in_set_conv_nth)
    then show ?thesis
      unfolding res None using k1 c1 l1 by (intro exI[of _ False] exI[of _ m1]) simp
  next
    case (Some j)
    from find_scan_Some[OF Some] obtain d where d: "0 < d" "d < ?n" "j = (?i + d) mod ?n" "?P j"
      and first: "\<forall>e. 0 < e \<and> e < d \<longrightarrow> \<not> ?P ((?i + e) mod ?n)"
      by blast
    have "\<forall>e. 0 < e \<and> e < d \<longrightarrow>
        status (keys m1 ! ((?i + e) mod ?n)) \<noteq> available \<and> (?i + e) mod ?n \<noteq> j"
      using first d(4) by auto
    with d have inner: "\<exists>d. 0 < d \<and> d < ?n \<and> j = (?i + d) mod ?n \<and>
        (\<forall>e. 0 < e \<and> e < d \<longrightarrow>
           status (keys m1 ! ((?i + e) mod ?n)) \<noteq> available \<and> (?i + e) mod ?n \<noteq> j)"
      by (intro exI[of _ d] conjI)
    have "j \<noteq> ?i"
      using d(4) ex by auto
    with inner d(4) show ?thesis
      unfolding res Some using k1 c1 l1
      by (intro exI[of _ True] exI[of _ "notify (m1\<lparr>currentIndex := j\<rparr>)"])
         (simp add: notify_def)
  qed
qed

theorem markExhaustedAndRotate_scan_witness:
  "currentIndex wrap_pool < length (keys wrap_pool) \<and>
   (\<exists>b m'. markExhaustedAndRotate wrap_pool = Inr (b, m') \<and> b \<and> currentIndex m' = 1 \<and>
      map status (keys m') = [error, available, exhausted])"
proof -
  have h: "currentIndex wrap_pool < length (keys wrap_pool)"
    by (simp add: wrap_pool_def)
  from markExhaustedAndRotate_scan[OF h] obtain b m' where
    r: "markExhaustedAndRotate wrap_pool = Inr (b, m')"
    and k: "keys m' = (keys wrap_pool)[currentIndex wrap_pool :=
                  (keys wrap_pool ! currentIndex wrap_pool)\<lparr>status := exhausted, errorMessage := Some msg_quota_used_up\<rparr>]"
    and t: "b \<longrightarrow> (\<exists>d. 0 < d \<and> d < length (keys wrap_pool) \<and>
                currentIndex m' = (currentIndex wrap_pool + d) mod length (keys wrap_pool) \<and>
                (\<forall>e. 0 < e \<and> e < d \<longrightarrow>
                   status (keys m' ! ((currentIndex wrap_pool + e) mod length (keys wrap_pool))) \<noteq> available \<and>
                   (currentIndex wrap_pool + e) mod length (keys wrap_pool) \<noteq> currentIndex m')) \<and>
           status (keys m' ! currentIndex m') = available \<and>
           currentIndex m' \<noteq> currentIndex wrap_pool"
    and f: "\<not> b \<longrightarrow> currentIndex m' = currentIndex wrap_pool \<and> (\<forall>k \<in> set (keys m'). status k \<noteq> available)"
    by blast
  have st: "map status (keys m') = [error, available, exhausted]"
    unfolding k by (simp add: wrap_pool_def)
  then have "\<exists>k \<in> set (keys m'). status k = available"
    by (metis list.set_intros(1,2) list.set_map imageE)
  with f have b: b by blast
  with t obtain d where d: "0 < d" "d < 3" "currentIndex m' = (2 + d) mod 3"
    and av: "status (keys m' ! currentIndex m') = available"
    by (auto simp: wrap_pool_def)
  from d have "d = 1 \<or> d = 2" by arith
  then have "currentIndex m' = 0 \<or> currentIndex m' = 1"
    using d(3) by auto
  moreover have "status (keys m' ! 0) = error"
    using st by (metis list.simps(9) nth_Cons_0 nth_map length_map length_greater_0_conv list.distinct(1))
  ultimately have "currentIndex m' = 1"
    using av by auto
  then show ?thesis
    using h r b st by auto
qed

section \<open>The cursor stays valid\<close>

text \<open>
  A pool built from at least one key has a valid cursor, and no call on the pool, no
  subscription and no cancellation of one makes a valid cursor invalid. The theorems
  below that assume a valid cursor therefore hold in every state the service can reach.
\<close>

lemma valid_cursor_new:
  "apiKeys \<noteq> [] \<Longrightarrow>
   currentIndex (new_ApiKeyManager today apiKeys) < length (keys (new_ApiKeyManager today apiKeys))"
  by (simp add: new_ApiKeyManager_def)

lemma valid_cursor_after_call:
  assumes "currentIndex m < length (keys m)"
  shows "currentIndex (after_call today c m) < length (keys (after_call today c m))"
proof (cases "c = MarkExhaustedAndRotate")
  case True
  from rotate_outcome[OF assms] show ?thesis
    unfolding True by auto
next
  case False
  then show ?thesis
    using assms
    by (cases c)
       (simp_all add: getCurrentKey_def hasAvailableKey_def getKeyStatuses_def
          checkDailyReset_def markAsActive_def markSuccess_def markError_def notify_def
          update_current_def Let_def)
qed

lemma valid_cursor_subscribe:
  "currentIndex m < length (keys m) \<Longrightarrow>
   currentIndex (fst (subscribe l m)) < length (keys (fst (subscribe l m))) \<and>
   currentIndex (snd (subscribe l m) m) < length (keys (snd (subscribe l m) m))"
  by (simp add: subscribe_def unsubscribe_def)
lemma trim_plain: "trim (ascii ''k1'') = ascii ''k1''" "trim (ascii ''k2'') = ascii ''k2''"
  by (simp_all add: trim_def ascii_def is_white_space_def)

lemma two_key_pool_eval:
  "two_key_pool = \<lparr>keys =
        [\<lparr>key = ascii ''k1'', status = available, lastUsed = None, requestCount = 0,
          lastResetDate = ascii ''2025-01-01'', errorMessage = None\<rparr>,
         \<lparr>key = ascii ''k2'', status = available, lastUsed = None, requestCount = 0,
          lastResetDate = ascii ''2025-01-01'', errorMessage = None\<rparr>],
      currentIndex = 0, listeners = [], delivered = []\<rparr>"
  by (simp add: two_key_pool_def new_ApiKeyManager_def trim_plain)

lemma active_pool_eval:
  "active_pool = \<lparr>keys =
        [\<lparr>key = ascii ''k1'', status = active, lastUsed = Some 5, requestCount = 0,
          lastResetDate = ascii ''2025-01-01'', errorMessage = None\<rparr>,
         \<lparr>key = ascii ''k2'', status = available, lastUsed = None, requestCount = 0,
          lastResetDate = ascii ''2025-01-01'', errorMessage = None\<rparr>],
      currentIndex = 0, listeners = [], delivered = []\<rparr>"
  by (simp add: active_pool_def two_key_pool_eval markAsActive_def update_current_def notify_def)

lemma filter_update_drop:
  "i < length xs \<Longrightarrow> P (xs ! i) \<Longrightarrow> \<not> P y \<Longrightarrow>
   Suc (length (filter P (xs[i := y]))) = length (filter P xs)"
  by (induction xs arbitrary: i) (auto split: nat.splits)

lemma map_update_same:
  "i < length xs \<Longrightarrow> f y = f (xs ! i) \<Longrightarrow> map f (xs[i := y]) = map f xs"
  by (induction xs arbitrary: i) (auto split: nat.splits)

lemma n_available_exhaust:
  assumes "currentIndex m < length (keys m)" "status (keys m ! currentIndex m) = available"
  shows "length (filter (\<lambda>k. status k = available)
           ((keys m)[currentIndex m :=
              (keys m ! currentIndex m)\<lparr>status := exhausted, errorMessage := Some msg_quota_used_up\<rparr>]))
         = n_available m - 1"
  unfolding n_available_def
  using filter_update_drop[of "currentIndex m" "keys m" "\<lambda>k. status k = available"
      "(keys m ! currentIndex m)\<lparr>status := exhausted, errorMessage := Some msg_quota_used_up\<rparr>"] assms
  by simp

lemma filter_update_keep:
  "i < length xs \<Longrightarrow> \<not> P (xs ! i) \<Longrightarrow> \<not> P y \<Longrightarrow>
   length (filter P (xs[i := y])) = length (filter P xs)"
  by (induction xs arbitrary: i) (auto split: nat.splits)

lemma rotations_exhaust_all:
  "currentIndex m < length (keys m) \<Longrightarrow>
   length (filter (\<lambda>k. status k = available)
     ((keys m)[currentIndex m :=
        (keys m ! currentIndex m)\<lparr>status := exhausted, errorMessage := Some msg_quota_used_up\<rparr>])) = n \<Longrightarrow>
   \<exists>m'. rotations (Suc n) m = Inr (replicate n True @ [False], m') \<and>
        list_all (\<lambda>k. status k \<noteq> available) (keys m') \<and>
        map lastResetDate (keys m') = map lastResetDate (keys m)"
proof (induction n arbitrary: m)
  case 0
  from rotate_outcome[OF 0(1)] obtain b m' where
    r: "markExhaustedAndRotate m = Inr (b, m')"
    and k: "keys m' = (keys m)[currentIndex m :=
                  (keys m ! currentIndex m)\<lparr>status := exhausted, errorMessage := Some msg_quota_used_up\<rparr>]"
    and c: "currentIndex m' < length (keys m')"
    and o: "if b then status (keys m' ! currentIndex m') = available
      else currentIndex m' = currentIndex m \<and> list_all (\<lambda>k. status k \<noteq> available) (keys m')"
    by blast
  have "n_available m' = 0"
    using 0(2) k by (simp add: n_available_def)
  then have none: "list_all (\<lambda>k. status k \<noteq> available) (keys m')"
    by (simp add: n_available_def list_all_iff filter_empty_conv)
  then have "\<not> b"
    using o c by (cases b) (auto simp: list_all_length)
  moreover have "map lastResetDate (keys m') = map lastResetDate (keys m)"
    unfolding k using 0(1) by (simp add: map_update_same)
  ultimately show ?case
    using r none by simp
next
  case (Suc n)
  from rotate_outcome[OF Suc(2)] obtain b m' where
    r: "markExhaustedAndRotate m = Inr (b, m')"
    and k: "keys m' = (keys m)[currentIndex m :=
                  (keys m ! currentIndex m)\<lparr>status := exhausted, errorMessage := Some msg_quota_used_up\<rparr>]"
    and c: "currentIndex m' < length (keys m')"
    and o: "if b then status (keys m' ! currentIndex m') = available
      else currentIndex m' = currentIndex m \<and> list_all (\<lambda>k. status k \<noteq> available) (keys m')"
    by blast
  have n': "n_available m' = Suc n"
    using Suc(3) k by (simp add: n_available_def)
  then have "filter (\<lambda>k. status k = available) (keys m') \<noteq> []"
    unfolding n_available_def by (metis length_0_conv nat.distinct(1))
  then have "\<not> list_all (\<lambda>k. status k \<noteq> available) (keys m')"
    by (simp add: list_all_iff filter_empty_conv)
  then have b: b
    using o by (cases b) simp_all
  then have av: "status (keys m' ! currentIndex m') = available"
    using o by simp
  have rest: "length (filter (\<lambda>k. status k = available)
     ((keys m')[currentIndex m' :=
        (keys m' ! currentIndex m')\<lparr>status := exhausted, errorMessage := Some msg_quota_used_up\<rparr>])) = n"
    using n_available_exhaust[OF c av] n' by simp
  from Suc.IH[OF c rest] obtain m'' where
    rs: "rotations (Suc n) m' = Inr (replicate n True @ [False], m'')"
    and none: "list_all (\<lambda>k. status k \<noteq> available) (keys m'')"
    and d: "map lastResetDate (keys m'') = map lastResetDate (keys m')"
    by blast
  have "map lastResetDate (keys m') = map lastResetDate (keys m)"
    unfolding k using Suc(2) by (simp add: map_update_same)
  with d have "map lastResetDate (keys m'') = map lastResetDate (keys m)"
    by simp
  moreover have "rotations (Suc (Suc n)) m = Inr (replicate (Suc n) True @ [False], m'')"
    using r rs b by simp
  ultimately show ?case
    using none by blast
qed

lemma reset_key_same_day: "lastResetDate k = today \<Longrightarrow> reset_key today k = k"
  by (simp add: reset_key_def)

lemma hasAvailableKey_none:
  assumes "list_all (\<lambda>k. status k \<noteq> available) (keys m)"
    and "list_all (\<lambda>k. lastResetDate k = today) (keys m)"
  shows "hasAvailableKey today m = (m, False)"
proof -
  have "map (reset_key today) (keys m) = keys m"
    using assms(2) by (simp add: list_all_iff map_idI reset_key_same_day)
  then show ?thesis
    using assms(1) by (simp add: hasAvailableKey_def checkDailyReset_def Let_def list_ex_iff list_all_iff)
qed

text \<open>
  Claim C2, as amended. Take any pool with a valid cursor in which every key was last
  reset on the day \<open>today\<close>, and let \<open>k\<close> be the number of available keys other than the
  one at the cursor: with \<open>N\<close> available keys that is \<open>N - 1\<close> when the key at the
  cursor is one of them and \<open>N\<close> when it is not (it is \<open>active\<close> when the dispatcher makes
  the call). Then \<open>k + 1\<close> successive calls of \<open>markExhaustedAndRotate\<close> return true \<open>k\<close>
  times and then false, and \<open>hasAvailableKey\<close>, called after them on the same day,
  returns false.
\<close>

theorem rotations_until_false:
  assumes "currentIndex m < length (keys m)"
    and "list_all (\<lambda>k. lastResetDate k = today) (keys m)"
    and "k = (if status (keys m ! currentIndex m) = available
              then n_available m - 1 else n_available m)"
  shows "\<exists>m'. rotations (Suc k) m = Inr (replicate k True @ [False], m') \<and>
              snd (hasAvailableKey today m') = False"
proof -
  have "length (filter (\<lambda>k. status k = available)
     ((keys m)[currentIndex m :=
        (keys m ! currentIndex m)\<lparr>status := exhausted, errorMessage := Some msg_quota_used_up\<rparr>])) = k"
  proof (cases "status (keys m ! currentIndex m) = available")
    case True
    then show ?thesis
      using n_available_exhaust[OF assms(1) True] assms(3) by simp
  next
    case False
    then show ?thesis
      using filter_update_keep[of "currentIndex m" "keys m" "\<lambda>k. status k = available"
          "(keys m ! currentIndex m)\<lparr>status := exhausted, errorMessage := Some msg_quota_used_up\<rparr>"]
        assms(1,3)
      by (simp add: n_available_def)
  qed
  from rotations_exhaust_all[OF assms(1) this] obtain m' where
    rs: "rotations (Suc k) m = Inr (replicate k True @ [False], m')"
    and none: "list_all (\<lambda>k. status k \<noteq> available) (keys m')"
    and d: "map lastResetDate (keys m') = map lastResetDate (keys m)"
    by blast
  have "list_all (\<lambda>d. d = today) (map lastResetDate (keys m))"
    using assms(2) by (simp add: list_all_iff)
  then have "list_all (\<lambda>k. lastResetDate k = today) (keys m')"
    unfolding d[symmetric] by (simp add: list_all_iff)
  then have "hasAvailableKey today m' = (m', False)"
    using none by (rule hasAvailableKey_none[rotated])
  then show ?thesis
    using rs by simp
qed

text \<open>
  The fresh pool of two keys (cursor on an available key, \<open>N = 2\<close>): true, then false.
  The same pool after \<open>markAsActive\<close> at time 5 (cursor on an active key, \<open>N = 1\<close>), the
  state in which the dispatcher calls the rotation: again true, then false.
\<close>

theorem rotations_until_false_witness:
  "n_available two_key_pool = 2 \<and>
   status (keys two_key_pool ! currentIndex two_key_pool) = available \<and>
   (\<exists>m'. rotations 2 two_key_pool = Inr ([True, False], m') \<and>
         snd (hasAvailableKey (ascii ''2025-01-01'') m') = False) \<and>
   n_available active_pool = 1 \<and>
   status (keys active_pool ! currentIndex active_pool) = active \<and>
   (\<exists>m'. rotations 2 active_pool = Inr ([True, False], m') \<and>
         snd (hasAvailableKey (ascii ''2025-01-01'') m') = False)"
proof -
  have h: "currentIndex two_key_pool < length (keys two_key_pool)"
    "list_all (\<lambda>k. lastResetDate k = ascii ''2025-01-01'') (keys two_key_pool)"
    "status (keys two_key_pool ! currentIndex two_key_pool) = available"
    "n_available two_key_pool = 2"
    by (simp_all add: two_key_pool_eval n_available_def)
  have g: "currentIndex active_pool < length (keys active_pool)"
    "list_all (\<lambda>k. lastResetDate k = ascii ''2025-01-01'') (keys active_pool)"
    "status (keys active_pool ! currentIndex active_pool) = active"
    "n_available active_pool = 1"
    by (simp_all add: active_pool_eval n_available_def)
  have "\<exists>m'. rotations 2 two_key_pool = Inr ([True, False], m') \<and>
         snd (hasAvailableKey (ascii ''2025-01-01'') m') = False"
    using rotations_until_false[OF h(1,2), of 1] h(3,4) by (simp add: numeral_2_eq_2)
  moreover have "\<exists>m'. rotations 2 active_pool = Inr ([True, False], m') \<and>
         snd (hasAvailableKey (ascii ''2025-01-01'') m') = False"
    using rotations_until_false[OF g(1,2), of 1] g(3,4) by (simp add: numeral_2_eq_2)
  ultimately show ?thesis
    using h g by simp
qed

text \<open>
  Claim C2 as stated fails: the fresh pool of two keys has \<open>N = 2\<close> available keys,
  and the one call that \<open>N - 1\<close> allows returns true and leaves a key available; no
  run of at most \<open>N - 1\<close> calls contains a call that returns false.
\<close>

theorem rotations_counterexample:
  "n_available two_key_pool = 2 \<and>
   (\<exists>m'. rotations 1 two_key_pool = Inr ([True], m') \<and>
         snd (hasAvailableKey (ascii ''2025-01-01'') m')) \<and>
   \<not> (\<exists>n bs m'. n \<le> n_available two_key_pool - 1 \<and>
         rotations n two_key_pool = Inr (bs, m') \<and> False \<in> set bs)"
proof -
  have n: "n_available two_key_pool = 2"
    by (simp add: two_key_pool_eval n_available_def)
  have r0: "rotations 0 two_key_pool = Inr ([], two_key_pool)"
    by simp
  have r1: "\<exists>m'. rotations 1 two_key_pool = Inr ([True], m') \<and>
         snd (hasAvailableKey (ascii ''2025-01-01'') m')"
    by (simp add: two_key_pool_eval markExhaustedAndRotate_def rotate_loop.simps notify_def
        update_current_def Let_def hasAvailableKey_def checkDailyReset_def reset_key_def)
  have "\<not> (\<exists>n bs m'. n \<le> n_available two_key_pool - 1 \<and>
         rotations n two_key_pool = Inr (bs, m') \<and> False \<in> set bs)"
  proof
    assume "\<exists>n bs m'. n \<le> n_available two_key_pool - 1 \<and>
         rotations n two_key_pool = Inr (bs, m') \<and> False \<in> set bs"
    then obtain k bs m' where k: "k \<le> 1" "rotations k two_key_pool = Inr (bs, m')" "False \<in> set bs"
      unfolding n by auto
    from k(1) have "k = 0 \<or> k = 1" by arith
    then show False
    proof
      assume "k = 0"
      with k(2,3) r0 show False by simp
    next
      assume "k = 1"
      with k(2,3) r1 show False by auto
    qed
  qed
  with n r1 show ?thesis by blast
qed
section \<open>Subscriptions\<close>

text \<open>
  Claim C3, as amended. The handle returned by \<open>subscribe\<close> for a listener removes
  every registration of that listener, keeps the registrations of all other listeners
  in their order, and touches nothing else in the manager; where the listener is
  registered once, exactly that one registration is removed.
\<close>

theorem unsubscribe_by_listener_identity:
  assumes "subscribe l m = (m1, handle)"
  shows "listeners m1 = listeners m @ [l] \<and>
         l \<notin> set (listeners (handle m')) \<and>
         filter (\<lambda>x. x \<noteq> l) (listeners (handle m')) = filter (\<lambda>x. x \<noteq> l) (listeners m') \<and>
         length (listeners (handle m')) = length (listeners m') - count_list (listeners m') l \<and>
         keys (handle m') = keys m' \<and> currentIndex (handle m') = currentIndex m' \<and>
         delivered (handle m') = delivered m'"
proof -
  from assms have m1: "m1 = m\<lparr>listeners := listeners m @ [l]\<rparr>" and h: "handle = unsubscribe l"
    by (simp_all add: subscribe_def)
  have "length (filter (\<lambda>x. x \<noteq> l) xs) = length xs - count_list xs l" for xs :: "listener list"
    by (induction xs) (auto simp: Suc_diff_le count_le_length)
  then show ?thesis
    unfolding m1 h by (simp add: unsubscribe_def)
qed

theorem unsubscribe_by_listener_identity_witness:
  "subscribe 7 (new_ApiKeyManager (ascii ''2025-01-01'') [ascii ''k1'']) =
     (new_ApiKeyManager (ascii ''2025-01-01'') [ascii ''k1''] \<lparr>listeners := [7]\<rparr>, unsubscribe 7) \<and>
   listeners (unsubscribe 7 (two_key_pool\<lparr>listeners := [3, 7, 4]\<rparr>)) = [3, 4]"
  using unsubscribe_by_listener_identity
    [of 7 "new_ApiKeyManager (ascii ''2025-01-01'') [ascii ''k1'']"
        "new_ApiKeyManager (ascii ''2025-01-01'') [ascii ''k1''] \<lparr>listeners := [7]\<rparr>"
        "unsubscribe 7" "two_key_pool\<lparr>listeners := [3, 7, 4]\<rparr>"]
  by (simp add: subscribe_def unsubscribe_def new_ApiKeyManager_def)

text \<open>
  Claim C3 as stated fails. The same listener is subscribed twice; invoking the first
  handle removes both registrations, so a later change of state is delivered to nobody,
  although the second subscription was never cancelled.
\<close>

theorem unsubscribe_counterexample:
  "(case subscribe 7 (new_ApiKeyManager (ascii ''2025-01-01'') [ascii ''k1'']) of
      (m1, handle1) \<Rightarrow>
        (case subscribe 7 m1 of
           (m2, handle2) \<Rightarrow>
             listeners m2 = [7, 7] \<and>
             listeners (handle1 m2) = [] \<and>
             (\<exists>m3. markAsActive 0 (handle1 m2) = Inr m3 \<and> delivered m3 = [])))"
  by (simp add: subscribe_def unsubscribe_def new_ApiKeyManager_def markAsActive_def notify_def
      update_current_def)
section \<open>The daily reset and the loop body\<close>

lemma list_all_update:
  "list_all P xs \<Longrightarrow> (i < length xs \<Longrightarrow> P y) \<Longrightarrow> list_all P (xs[i := y])"
  by (induction xs arbitrary: i) (auto split: nat.splits)

lemma reset_key_idem: "reset_key today (reset_key today k) = reset_key today k"
  by (simp add: reset_key_def)

lemma reset_key_date: "lastResetDate (reset_key today k) = today"
  by (simp add: reset_key_def)

lemma checkDailyReset_idem:
  "checkDailyReset today (checkDailyReset today m) = checkDailyReset today m"
  by (simp add: checkDailyReset_def reset_key_idem)

lemma checkDailyReset_same_day:
  "list_all (\<lambda>k. lastResetDate k = today) (keys m) \<Longrightarrow> checkDailyReset today m = m"
  by (simp add: checkDailyReset_def list_all_iff map_idI reset_key_same_day)

lemma checkDailyReset_dates:
  "list_all (\<lambda>k. lastResetDate k = today) (keys (checkDailyReset today m))"
  by (simp add: checkDailyReset_def list_all_iff reset_key_date)

lemma dates_update_current:
  assumes "list_all (\<lambda>k. lastResetDate k = today) (keys m)"
    and "lastResetDate (f (keys m ! currentIndex m)) = lastResetDate (keys m ! currentIndex m)"
  shows "list_all (\<lambda>k. lastResetDate k = today) (keys (notify (update_current f m)))"
proof (cases "currentIndex m < length (keys m)")
  case True
  then have "lastResetDate (f (keys m ! currentIndex m)) = today"
    using assms by (simp add: list_all_length)
  then show ?thesis
    using assms(1) by (simp add: notify_def update_current_def list_all_update)
next
  case False
  then show ?thesis
    using assms(1) by (simp add: notify_def update_current_def list_all_update)
qed

lemma rate_limit_test_Str:
  "rate_limit_test st (Str t) =
     Inr (st = Some 429 \<or> includes_js t (ascii ''429'') \<or> includes_js t (ascii ''RESOURCE_EXHAUSTED''))"
  by (simp add: rate_limit_test_def split: bool.splits)

lemma rate_limit_test_NotStr:
  "rate_limit_test st NotStr = (if st = Some 429 then Inr True else Inl TypeError)"
  by (simp add: rate_limit_test_def)

lemma not_found_test_Str:
  "not_found_test st (Str t) =
     Inr (st = Some 404 \<or> includes_js t (ascii ''404'') \<or> includes_js t (ascii ''NOT_FOUND''))"
  by (simp add: not_found_test_def split: bool.splits)

lemma not_found_test_NotStr:
  "not_found_test st NotStr = (if st = Some 404 then Inr True else Inl TypeError)"
  by (simp add: not_found_test_def)

lemma catch_invalid_cursor:
  "\<not> currentIndex (keyManager s) < length (keys (keyManager s)) \<Longrightarrow>
   catch_block rt e s = (Some (Inl (Thrown (type_error rt))), s)"
  by (simp add: catch_block_def markExhaustedAndRotate_def markError_def
      split: sum.splits exn.splits bool.splits)

lemma catch_unreadable:
  "unreadable e \<Longrightarrow> catch_block rt e s = (Some (Inl (Thrown (type_error rt))), s)"
  by (auto simp: catch_block_def unreadable_def split: sum.splits exn.splits)

lemma catch_rate_limit:
  "is_rate_limit e \<Longrightarrow> markExhaustedAndRotate (keyManager s) = Inr (b, m') \<Longrightarrow>
   catch_block rt e s =
     (if b then (None, s\<lparr>keyManager := m', world := delay rt 2000 (world s)\<rparr>)
      else (Some (Inl AllKeysExhausted), s\<lparr>keyManager := m'\<rparr>))"
  by (auto simp: catch_block_def is_rate_limit_def split: sum.splits exn.splits)

text \<open>
  A failure on which the \<open>catch\<close> block does not throw and whose first test is false
  has a string as message: the first test has called \<open>includes\<close> on it.
\<close>

lemma readable_message:
  "\<not> unreadable e \<Longrightarrow> \<not> is_rate_limit e \<Longrightarrow> \<exists>t. errorMessage_of e = Inr (Str t)"
proof (cases "errorMessage_of e")
  case (Inl x)
  assume "\<not> unreadable e"
  with Inl show ?thesis
    by (simp add: unreadable_def split: exn.splits)
next
  case (Inr msg)
  assume "\<not> unreadable e" "\<not> is_rate_limit e"
  with Inr show ?thesis
    by (cases msg) (auto simp: unreadable_def is_rate_limit_def rate_limit_test_NotStr
        split: if_splits)
qed

lemma catch_not_found:
  "errorMessage_of e = Inr (Str t) \<Longrightarrow> \<not> is_rate_limit e \<Longrightarrow> is_not_found e \<Longrightarrow>
   currentIndex (keyManager s) < length (keys (keyManager s)) \<Longrightarrow>
   catch_block rt e s =
     (Some (Inl (NotFoundError (Str t))),
      s\<lparr>keyManager := notify (update_current
          (\<lambda>k. k\<lparr>status := error, errorMessage := Some msg_invalid_key\<rparr>) (keyManager s))\<rparr>)"
  by (simp add: catch_block_def markError_def is_rate_limit_def is_not_found_def
      rate_limit_test_Str not_found_test_Str)

lemma catch_other:
  "errorMessage_of e = Inr (Str t) \<Longrightarrow> \<not> is_rate_limit e \<Longrightarrow> \<not> is_not_found e \<Longrightarrow>
   currentIndex (keyManager s) < length (keys (keyManager s)) \<Longrightarrow>
   catch_block rt e s =
     (Some (Inl (Thrown e)),
      s\<lparr>keyManager := notify (update_current
          (\<lambda>k. k\<lparr>status := error, errorMessage := Some (take 50 t)\<rparr>)
          (keyManager s))\<rparr>)"
  by (simp add: catch_block_def markError_def is_rate_limit_def is_not_found_def
      rate_limit_test_Str not_found_test_Str)

lemma attempt_none_available:
  "\<not> list_ex (\<lambda>k. status k = available)
       (keys (checkDailyReset (today_at rt (world s)) (keyManager s))) \<Longrightarrow>
   attempt rt operation s =
     (Some (Inl NoAvailableKey),
      s\<lparr>keyManager := checkDailyReset (today_at rt (world s)) (keyManager s)\<rparr>)"
  by (simp add: attempt_def hasAvailableKey_def Let_def)

lemma attempt_invalid_cursor:
  assumes "list_ex (\<lambda>k. status k = available)
       (keys (checkDailyReset (today_at rt (world s)) (keyManager s)))"
    and "\<not> currentIndex (keyManager s) < length (keys (keyManager s))"
  shows "attempt rt operation s =
     (Some (Inl (Thrown (type_error rt))),
      s\<lparr>keyManager := checkDailyReset (today_at rt (world s)) (keyManager s)\<rparr>)"
proof -
  let ?m1 = "checkDailyReset (today_at rt (world s)) (keyManager s)"
  have "markAsActive (now_at rt (world s)) ?m1 = Inl TypeError"
    using assms(2) by (simp add: markAsActive_def checkDailyReset_def)
  moreover have "catch_block rt (type_error rt) (s\<lparr>keyManager := ?m1\<rparr>)
      = (Some (Inl (Thrown (type_error rt))), s\<lparr>keyManager := ?m1\<rparr>)"
    using assms(2) by (intro catch_invalid_cursor) (simp add: checkDailyReset_def)
  ultimately show ?thesis
    using assms(1) by (simp add: attempt_def hasAvailableKey_def Let_def)
qed

text \<open>
  With a valid cursor and an available key the operation is invoked once, with the key
  at the cursor, on a pool whose entry at the cursor is \<open>active\<close>; the second reset
  (in \<open>getCurrentKey\<close>) changes nothing, since it is done at the same instant.
\<close>

lemma attempt_run:
  assumes "list_ex (\<lambda>k. status k = available)
       (keys (checkDailyReset (today_at rt (world s)) (keyManager s)))"
    and "currentIndex (keyManager s) < length (keys (keyManager s))"
  shows "attempt rt operation s =
     (let m1 = checkDailyReset (today_at rt (world s)) (keyManager s);
          m2 = notify (update_current
                 (\<lambda>k. k\<lparr>status := active, lastUsed := Some (now_at rt (world s))\<rparr>) m1);
          currentKey = key (keys m1 ! currentIndex m1) in
      case operation currentKey (world s) of
        (Inl e, w') \<Rightarrow>
          catch_block rt e (s\<lparr>keyManager := m2, world := w', calls := calls s @ [currentKey]\<rparr>)
      | (Inr result, w') \<Rightarrow>
          (Some (Inr result),
           s\<lparr>keyManager := notify (update_current
                 (\<lambda>current. current\<lparr>status := available,
                     requestCount := requestCount current + 1, lastUsed := Some (now_at rt w')\<rparr>) m2),
             world := w', calls := calls s @ [currentKey]\<rparr>))"
proof -
  let ?t = "today_at rt (world s)"
  define m1 where "m1 = checkDailyReset ?t (keyManager s)"
  define m2 where "m2 = notify (update_current
                 (\<lambda>k. k\<lparr>status := active, lastUsed := Some (now_at rt (world s))\<rparr>) m1)"
  have c1: "currentIndex m1 < length (keys m1)"
    using assms(2) by (simp add: m1_def checkDailyReset_def)
  have a: "markAsActive (now_at rt (world s)) m1 = Inr m2"
    using c1 by (simp add: markAsActive_def m2_def)
  have "list_all (\<lambda>k. lastResetDate k = ?t) (keys m2)"
    unfolding m2_def by (intro dates_update_current) (simp_all add: m1_def checkDailyReset_dates)
  then have r: "checkDailyReset ?t m2 = m2"
    by (rule checkDailyReset_same_day)
  have c2: "currentIndex m2 < length (keys m2)" "currentIndex m2 = currentIndex m1"
    using c1 by (simp_all add: m2_def notify_def update_current_def)
  have k2: "key (keys m2 ! currentIndex m2) = key (keys m1 ! currentIndex m1)"
    using c1 by (simp add: m2_def notify_def update_current_def)
  have g: "getCurrentKey ?t m2 = (m2, Inr (key (keys m1 ! currentIndex m1)))"
    using c2 k2 by (simp add: getCurrentKey_def r Let_def)
  have h: "hasAvailableKey ?t (keyManager s) = (m1, True)"
    using assms(1) by (simp add: hasAvailableKey_def m1_def Let_def)
  have ms: "markSuccess n m2 = Inr (notify (update_current
                 (\<lambda>current. current\<lparr>status := available,
                     requestCount := requestCount current + 1, lastUsed := Some n\<rparr>) m2))" for n
    using c2 by (simp add: markSuccess_def)
  show ?thesis
    unfolding attempt_def h Let_def m1_def[symmetric] m2_def[symmetric]
    by (simp add: a g ms split: prod.splits sum.splits)
qed

lemma loop_continue:
  "attempts < maxRetries \<Longrightarrow> attempt rt operation s = (None, s') \<Longrightarrow>
   executeWithRetry_loop rt operation maxRetries attempts s
     = executeWithRetry_loop rt operation maxRetries (attempts + 1) s'"
  by (subst executeWithRetry_loop.simps) simp

lemma loop_stop:
  "attempts < maxRetries \<Longrightarrow> attempt rt operation s = (Some outcome, s') \<Longrightarrow>
   executeWithRetry_loop rt operation maxRetries attempts s = (outcome, s')"
  by (subst executeWithRetry_loop.simps) simp

section \<open>Stored diagnostics\<close>

lemma rotate_keys:
  "markExhaustedAndRotate m = Inr (b, m') \<Longrightarrow>
   keys m' = (keys m)[currentIndex m :=
      (keys m ! currentIndex m)\<lparr>status := exhausted, errorMessage := Some msg_quota_used_up\<rparr>]"
  using rotate_loop_frame[of "notify (update_current
      (\<lambda>k. k\<lparr>status := exhausted, errorMessage := Some msg_quota_used_up\<rparr>) m)" 0]
  by (auto simp: markExhaustedAndRotate_def notify_def update_current_def split: if_splits)

lemma bounded_checkDailyReset:
  "bounded_diagnostics m \<Longrightarrow> bounded_diagnostics (checkDailyReset today m)"
  by (auto simp: bounded_diagnostics_def checkDailyReset_def reset_key_def list_all_iff)

lemma bounded_update_current:
  assumes "bounded_diagnostics m"
    and "case errorMessage (f (keys m ! currentIndex m)) of None \<Rightarrow> True | Some t \<Rightarrow> length t \<le> 50"
  shows "bounded_diagnostics (notify (update_current f m))"
  using assms unfolding bounded_diagnostics_def notify_def update_current_def
  by (simp add: list_all_update)

lemma bounded_at_cursor:
  "bounded_diagnostics m \<Longrightarrow> currentIndex m < length (keys m) \<Longrightarrow>
   (case errorMessage (keys m ! currentIndex m) of None \<Rightarrow> True | Some t \<Rightarrow> length t \<le> 50)"
  by (simp add: bounded_diagnostics_def list_all_length)

lemma bounded_markError:
  "bounded_diagnostics m \<Longrightarrow> length err \<le> 50 \<Longrightarrow> markError err m = Inr m' \<Longrightarrow> bounded_diagnostics m'"
  unfolding markError_def
  by (auto split: if_splits intro!: bounded_update_current)

lemma bounded_rotate:
  assumes "bounded_diagnostics m" "markExhaustedAndRotate m = Inr (b, m')"
  shows "bounded_diagnostics m'"
  using assms(1) unfolding bounded_diagnostics_def rotate_keys[OF assms(2)]
  by (simp add: list_all_update msg_quota_used_up_def)

lemma substring_of_length: "substring_of msg n = Inr t \<Longrightarrow> length t \<le> n"
  by (cases msg) auto

lemma bounded_catch_block:
  assumes "bounded_diagnostics (keyManager s)" "catch_block rt e s = (out, s')"
  shows "bounded_diagnostics (keyManager s')"
proof (cases "errorMessage_of e")
  case (Inl x)
  then show ?thesis
    using assms by (auto simp: catch_block_def split: exn.splits)
next
  case (Inr msg)
  consider (throws) x where "rate_limit_test (status_of e) msg = Inl x"
    | (rate) "rate_limit_test (status_of e) msg = Inr True"
    | (rest) "rate_limit_test (status_of e) msg = Inr False"
    by (cases "rate_limit_test (status_of e) msg") auto
  then show ?thesis
  proof cases
    case throws
    then show ?thesis
      using assms Inr by (auto simp: catch_block_def split: exn.splits)
  next
    case rate
    then show ?thesis
      using assms Inr bounded_rotate[OF assms(1)]
      by (auto simp: catch_block_def split: sum.splits exn.splits if_splits prod.splits)
  next
    case rest
    consider (throws) x where "not_found_test (status_of e) msg = Inl x"
      | (nf) "not_found_test (status_of e) msg = Inr True"
      | (other) "not_found_test (status_of e) msg = Inr False"
      by (cases "not_found_test (status_of e) msg") auto
    then show ?thesis
    proof cases
      case throws
      then show ?thesis
        using assms Inr rest by (auto simp: catch_block_def split: exn.splits)
    next
      case nf
      have "length msg_invalid_key \<le> 50"
        by (simp add: msg_invalid_key_def)
      from bounded_markError[OF assms(1) this] show ?thesis
        using assms Inr rest nf
        by (auto simp: catch_block_def split: sum.splits exn.splits)
    next
      case other
      show ?thesis
      proof (cases "substring_of msg 50")
        case (Inl x)
        then show ?thesis
          using assms Inr rest other by (auto simp: catch_block_def split: exn.splits)
      next
        case sub: (Inr t)
        from bounded_markError[OF assms(1) substring_of_length[OF sub]] show ?thesis
          using assms Inr rest other sub
          by (auto simp: catch_block_def split: sum.splits exn.splits)
      qed
    qed
  qed
qed

lemma bounded_attempt:
  assumes "bounded_diagnostics (keyManager s)" "attempt rt operation s = (out, s')"
  shows "bounded_diagnostics (keyManager s')"
proof -
  let ?m1 = "checkDailyReset (today_at rt (world s)) (keyManager s)"
  let ?m2 = "notify (update_current
                 (\<lambda>k. k\<lparr>status := active, lastUsed := Some (now_at rt (world s))\<rparr>) ?m1)"
  let ?k = "key (keys ?m1 ! currentIndex ?m1)"
  have b1: "bounded_diagnostics ?m1"
    using assms(1) by (rule bounded_checkDailyReset)
  consider (none) "\<not> list_ex (\<lambda>k. status k = available) (keys ?m1)"
    | (invalid) "list_ex (\<lambda>k. status k = available) (keys ?m1)"
        "\<not> currentIndex (keyManager s) < length (keys (keyManager s))"
    | (run) "list_ex (\<lambda>k. status k = available) (keys ?m1)"
        "currentIndex (keyManager s) < length (keys (keyManager s))"
    by blast
  then show ?thesis
  proof cases
    case none
    then show ?thesis
      using assms(2) b1 by (auto simp: attempt_none_available)
  next
    case invalid
    then show ?thesis
      using assms(2) b1 by (auto simp: attempt_invalid_cursor)
  next
    case run
    have c1: "currentIndex ?m1 < length (keys ?m1)"
      using run(2) by (simp add: checkDailyReset_def)
    have b2: "bounded_diagnostics ?m2"
      using bounded_at_cursor[OF b1 c1] by (intro bounded_update_current[OF b1]) simp
    have c2: "currentIndex ?m2 < length (keys ?m2)"
      using c1 by (simp add: notify_def update_current_def)
    obtain r w' where op: "operation ?k (world s) = (r, w')"
      by (cases "operation ?k (world s)")
    show ?thesis
    proof (cases r)
      case (Inl e)
      then have "catch_block rt e (s\<lparr>keyManager := ?m2, world := w', calls := calls s @ [?k]\<rparr>) = (out, s')"
        using assms(2) op unfolding attempt_run[OF run] Let_def by simp
      then show ?thesis
        using b2 bounded_catch_block[of "s\<lparr>keyManager := ?m2, world := w', calls := calls s @ [?k]\<rparr>"]
        by simp
    next
      case (Inr result)
      then have "keyManager s' = notify (update_current
                 (\<lambda>current. current\<lparr>status := available,
                     requestCount := requestCount current + 1, lastUsed := Some (now_at rt w')\<rparr>) ?m2)"
        using assms(2) op unfolding attempt_run[OF run] Let_def by auto
      then show ?thesis
        using bounded_at_cursor[OF b2 c2] by (simp add: bounded_update_current[OF b2])
    qed
  qed
qed

lemma bounded_loop:
  "bounded_diagnostics (keyManager s) \<Longrightarrow>
   bounded_diagnostics (keyManager (snd (executeWithRetry_loop rt operation maxRetries attempts s)))"
proof (induction rt operation maxRetries attempts s rule: executeWithRetry_loop.induct)
  case (1 rt operation maxRetries attempts s)
  show ?case
  proof (cases "attempts < maxRetries")
    case False
    then show ?thesis
      using 1(2) by (subst executeWithRetry_loop.simps) simp
  next
    case True
    obtain out s' where a: "attempt rt operation s = (out, s')"
      by (cases "attempt rt operation s")
    have b': "bounded_diagnostics (keyManager s')"
      using bounded_attempt[OF 1(2) a] .
    show ?thesis
    proof (cases out)
      case None
      then show ?thesis
        using 1(1)[OF True a[symmetric] None b'] True a
        by (subst executeWithRetry_loop.simps) simp
    next
      case (Some outcome)
      then show ?thesis
        using True a b' by (subst executeWithRetry_loop.simps) simp
    qed
  qed
qed

lemma includes_js_replicate:
  "a \<noteq> c \<Longrightarrow> \<not> includes_js (replicate n c) (a # q)"
  by (induction n) auto

lemma classify_examples:
  "is_rate_limit rate_limited" "\<not> is_rate_limit not_found" "is_not_found not_found"
  "\<not> is_rate_limit verbose_failure" "\<not> is_not_found verbose_failure"
  "\<not> unreadable rate_limited" "\<not> unreadable not_found" "\<not> unreadable verbose_failure"
  by (simp_all add: is_rate_limit_def is_not_found_def unreadable_def rate_limited_def
      not_found_def verbose_failure_def status_of_def errorMessage_of_def ascii_def
      rate_limit_test_Str not_found_test_Str includes_js_replicate)

lemma verbose_failure_message: "errorMessage_of verbose_failure = Inr (Str (replicate 60 0x78))"
  by (simp add: errorMessage_of_def verbose_failure_def)

text \<open>
  Claim C5, as amended. \<open>markError\<close> sets the key at the cursor to \<open>error\<close> and
  stores the diagnostic it is given, whatever its length. The truncation is done by the
  caller: on a failure that is neither a rate limit nor a not-found failure (and that
  the \<open>catch\<close> block can read) the block stores the first 50 code units of the
  upstream message; and a dispatch that starts from a pool whose stored diagnostics
  have at most 50 code units ends with such a pool.
\<close>

theorem markError_stores_dispatch_truncates:
  "(currentIndex m < length (keys m) \<longrightarrow>
      (\<exists>m'. markError msg m = Inr m' \<and> currentIndex m' = currentIndex m \<and>
            status (keys m' ! currentIndex m) = error \<and>
            errorMessage (keys m' ! currentIndex m) = Some msg)) \<and>
   (\<not> unreadable e \<and> \<not> is_rate_limit e \<and> \<not> is_not_found e \<and>
    currentIndex (keyManager s) < length (keys (keyManager s)) \<longrightarrow>
      (\<exists>s' t. errorMessage_of e = Inr (Str t) \<and>
            catch_block rt e s = (Some (Inl (Thrown e)), s') \<and>
            status (keys (keyManager s') ! currentIndex (keyManager s)) = error \<and>
            errorMessage (keys (keyManager s') ! currentIndex (keyManager s))
              = Some (take 50 t))) \<and>
   (bounded_diagnostics (keyManager s) \<longrightarrow>
      bounded_diagnostics (keyManager (snd (executeWithRetry rt operation maxRetries s))))"
proof (intro conjI impI)
  assume "currentIndex m < length (keys m)"
  then show "\<exists>m'. markError msg m = Inr m' \<and> currentIndex m' = currentIndex m \<and>
            status (keys m' ! currentIndex m) = error \<and>
            errorMessage (keys m' ! currentIndex m) = Some msg"
    by (simp add: markError_def notify_def update_current_def)
next
  assume a: "\<not> unreadable e \<and> \<not> is_rate_limit e \<and> \<not> is_not_found e \<and>
    currentIndex (keyManager s) < length (keys (keyManager s))"
  then obtain t where t: "errorMessage_of e = Inr (Str t)"
    using readable_message by blast
  show "\<exists>s' t. errorMessage_of e = Inr (Str t) \<and>
            catch_block rt e s = (Some (Inl (Thrown e)), s') \<and>
            status (keys (keyManager s') ! currentIndex (keyManager s)) = error \<and>
            errorMessage (keys (keyManager s') ! currentIndex (keyManager s))
              = Some (take 50 t)"
    using a t by (simp add: catch_other[OF t] notify_def update_current_def)
next
  assume "bounded_diagnostics (keyManager s)"
  then show "bounded_diagnostics (keyManager (snd (executeWithRetry rt operation maxRetries s)))"
    unfolding executeWithRetry_def by (rule bounded_loop)
qed

theorem markError_stores_dispatch_truncates_witness:
  "currentIndex two_key_pool < length (keys two_key_pool) \<and>
   \<not> unreadable verbose_failure \<and>
   \<not> is_rate_limit verbose_failure \<and> \<not> is_not_found verbose_failure \<and>
   bounded_diagnostics two_key_pool \<and>
   (\<exists>m'. markError (replicate 60 0x78) two_key_pool = Inr m' \<and>
         errorMessage (keys m' ! 0) = Some (replicate 60 0x78)) \<and>
   (\<exists>s'. catch_block fixed_runtime verbose_failure (service_of two_key_pool)
           = (Some (Inl (Thrown verbose_failure)), s') \<and>
         errorMessage (keys (keyManager s') ! 0) = Some (replicate 50 0x78)) \<and>
   bounded_diagnostics (keyManager (snd
      (executeWithRetry fixed_runtime always_verbose_failure 3 (service_of two_key_pool))))"
proof -
  have h: "currentIndex two_key_pool < length (keys two_key_pool)"
    "bounded_diagnostics two_key_pool"
    by (simp_all add: two_key_pool_eval bounded_diagnostics_def)
  have c: "currentIndex two_key_pool = 0"
    by (simp add: two_key_pool_eval)
  have "(\<exists>m'. markError (replicate 60 0x78) two_key_pool = Inr m' \<and>
         errorMessage (keys m' ! 0) = Some (replicate 60 0x78))"
    and "(\<exists>s'. catch_block fixed_runtime verbose_failure (service_of two_key_pool)
           = (Some (Inl (Thrown verbose_failure)), s') \<and>
         errorMessage (keys (keyManager s') ! 0) = Some (replicate 50 0x78))"
    and "bounded_diagnostics (keyManager (snd
      (executeWithRetry fixed_runtime always_verbose_failure 3 (service_of two_key_pool))))"
    using h markError_stores_dispatch_truncates
      [of two_key_pool "replicate 60 0x78" verbose_failure "service_of two_key_pool" fixed_runtime
        always_verbose_failure 3]
    by (auto simp: classify_examples verbose_failure_message service_of_def c)
  then show ?thesis
    using h by (simp add: classify_examples)
qed

text \<open>
  Claim C5 as stated fails: \<open>markError\<close> with a diagnostic of 51 code units stores all
  51 of them.
\<close>

theorem markError_counterexample:
  "\<exists>m' t. markError (replicate 51 0x78) two_key_pool = Inr m' \<and>
      status (keys m' ! currentIndex m') = error \<and>
      errorMessage (keys m' ! currentIndex m') = Some t \<and> length t = 51 \<and> \<not> length t \<le> 50"
  by (simp add: two_key_pool_eval markError_def notify_def update_current_def)
section \<open>The active key after a dispatch\<close>

lemma none_active_checkDailyReset:
  "none_active m \<Longrightarrow> none_active (checkDailyReset today m)"
  by (auto simp: none_active_def checkDailyReset_def reset_key_def list_all_iff)

lemma none_active_remark:
  assumes "none_active m" "keyManager s = notify (update_current f m)" "status y \<noteq> active"
  shows "list_all (\<lambda>k. status k \<noteq> active)
           ((keys (keyManager s))[currentIndex (keyManager s) := y])"
  using assms(1,3) unfolding none_active_def assms(2)
  by (simp add: notify_def update_current_def list_all_update)

lemma none_active_mark:
  assumes "none_active m" "keyManager s = notify (update_current f m)"
    and "status (g (keys (keyManager s) ! currentIndex (keyManager s))) \<noteq> active"
  shows "none_active (notify (update_current g (keyManager s)))"
  using none_active_remark[OF assms]
  by (simp add: none_active_def notify_def update_current_def)

text \<open>
  Every branch of the \<open>catch\<close> block marks the key at the cursor again: if the block
  does not throw before it reaches a branch, the key that \<open>markAsActive\<close> made
  \<open>active\<close> is no longer \<open>active\<close> after it.
\<close>

lemma catch_block_clears_active:
  assumes "none_active m" "currentIndex m < length (keys m)"
    and "keyManager s = notify (update_current f m)"
    and "catch_block rt e s = (out, s')"
    and "\<not> unreadable e"
  shows "none_active (keyManager s')"
proof -
  have c: "currentIndex (keyManager s) < length (keys (keyManager s))"
    using assms(2,3) by (simp add: notify_def update_current_def)
  show ?thesis
  proof (cases "is_rate_limit e")
    case True
    from rotate_outcome[OF c] obtain b m' where
      r: "markExhaustedAndRotate (keyManager s) = Inr (b, m')"
      and k: "keys m' = (keys (keyManager s))[currentIndex (keyManager s) :=
                  (keys (keyManager s) ! currentIndex (keyManager s))
                    \<lparr>status := exhausted, errorMessage := Some msg_quota_used_up\<rparr>]"
      by blast
    have "none_active m'"
      unfolding none_active_def k
      by (rule none_active_remark[OF assms(1,3)]) simp
    then show ?thesis
      using assms(4) unfolding catch_rate_limit[OF True r] by (auto split: if_splits)
  next
    case False
    from readable_message[OF assms(5) False] obtain t where t: "errorMessage_of e = Inr (Str t)"
      by blast
    show ?thesis
    proof (cases "is_not_found e")
      case True
      have "none_active (notify (update_current
          (\<lambda>k. k\<lparr>status := error, errorMessage := Some msg_invalid_key\<rparr>) (keyManager s)))"
        by (rule none_active_mark[OF assms(1,3)]) simp
      then show ?thesis
        using assms(4) unfolding catch_not_found[OF t False True c] by auto
    next
      case nf: False
      have "none_active (notify (update_current
          (\<lambda>k. k\<lparr>status := error, errorMessage := Some (take 50 t)\<rparr>)
          (keyManager s)))"
        by (rule none_active_mark[OF assms(1,3)]) simp
      then show ?thesis
        using assms(4) unfolding catch_other[OF t False nf c] by auto
    qed
  qed
qed

lemma none_active_attempt:
  assumes "none_active (keyManager s)" "attempt rt operation s = (out, s')"
    and "\<forall>k w e w'. operation k w = (Inl e, w') \<longrightarrow> \<not> unreadable e"
  shows "none_active (keyManager s')"
proof -
  let ?m1 = "checkDailyReset (today_at rt (world s)) (keyManager s)"
  let ?act = "\<lambda>k. k\<lparr>status := active, lastUsed := Some (now_at rt (world s))\<rparr>"
  let ?m2 = "notify (update_current ?act ?m1)"
  let ?k = "key (keys ?m1 ! currentIndex ?m1)"
  have n1: "none_active ?m1"
    using assms(1) by (rule none_active_checkDailyReset)
  consider (none) "\<not> list_ex (\<lambda>k. status k = available) (keys ?m1)"
    | (invalid) "list_ex (\<lambda>k. status k = available) (keys ?m1)"
        "\<not> currentIndex (keyManager s) < length (keys (keyManager s))"
    | (run) "list_ex (\<lambda>k. status k = available) (keys ?m1)"
        "currentIndex (keyManager s) < length (keys (keyManager s))"
    by blast
  then show ?thesis
  proof cases
    case none
    then show ?thesis
      using assms(2) n1 by (auto simp: attempt_none_available)
  next
    case invalid
    then show ?thesis
      using assms(2) n1 by (auto simp: attempt_invalid_cursor)
  next
    case run
    have c1: "currentIndex ?m1 < length (keys ?m1)"
      using run(2) by (simp add: checkDailyReset_def)
    obtain r w' where op: "operation ?k (world s) = (r, w')"
      by (cases "operation ?k (world s)")
    show ?thesis
    proof (cases r)
      case (Inl e)
      then have "catch_block rt e (s\<lparr>keyManager := ?m2, world := w', calls := calls s @ [?k]\<rparr>) = (out, s')"
        using assms(2) op unfolding attempt_run[OF run] Let_def by simp
      moreover have "\<not> unreadable e"
        using assms(3) op Inl by blast
      ultimately show ?thesis
        using catch_block_clears_active[OF n1 c1, of
            "s\<lparr>keyManager := ?m2, world := w', calls := calls s @ [?k]\<rparr>" ?act]
        by simp
    next
      case (Inr result)
      let ?suc = "\<lambda>current. current\<lparr>status := available,
                     requestCount := requestCount current + 1, lastUsed := Some (now_at rt w')\<rparr>"
      have "keyManager s' = notify (update_current ?suc ?m2)"
        using Inr assms(2) op unfolding attempt_run[OF run] Let_def by auto
      moreover have "none_active (notify (update_current ?suc ?m2))"
        using none_active_mark[OF n1, of "s\<lparr>keyManager := ?m2\<rparr>" ?act ?suc] by simp
      ultimately show ?thesis by simp
    qed
  qed
qed

text \<open>
  So a dispatch whose operation only fails with failures that the \<open>catch\<close> block can
  read ends with no key \<open>active\<close>, if it started so.
\<close>

lemma none_active_loop:
  "none_active (keyManager s) \<Longrightarrow>
   \<forall>k w e w'. operation k w = (Inl e, w') \<longrightarrow> \<not> unreadable e \<Longrightarrow>
   none_active (keyManager (snd (executeWithRetry_loop rt operation maxRetries attempts s)))"
proof (induction rt operation maxRetries attempts s rule: executeWithRetry_loop.induct)
  case (1 rt operation maxRetries attempts s)
  show ?case
  proof (cases "attempts < maxRetries")
    case False
    then show ?thesis
      using 1(2) by (subst executeWithRetry_loop.simps) simp
  next
    case True
    obtain out s' where a: "attempt rt operation s = (out, s')"
      by (cases "attempt rt operation s")
    have n': "none_active (keyManager s')"
      using none_active_attempt[OF 1(2) a 1(3)] .
    show ?thesis
    proof (cases out)
      case None
      then show ?thesis
        using 1(1)[OF True a[symmetric] None n' 1(3)] True a
        by (subst executeWithRetry_loop.simps) simp
    next
      case (Some outcome)
      then show ?thesis
        using True a n' by (subst executeWithRetry_loop.simps) simp
    qed
  qed
qed

text \<open>
  But when the operation fails with a failure that the \<open>catch\<close> block cannot read,
  the block throws before it reaches a branch, and the dispatch ends with the key at
  the cursor still \<open>active\<close>.
\<close>

lemma unreadable_leaves_active:
  fixes operation :: "('w, 'r) operation"
  assumes "list_ex (\<lambda>k. status k = available)
       (keys (checkDailyReset (today_at rt (world s)) (keyManager s)))"
    and "currentIndex (keyManager s) < length (keys (keyManager s))"
    and "operation (key (keys (checkDailyReset (today_at rt (world s)) (keyManager s)) !
            currentIndex (keyManager s))) (world s) = (Inl e, w')"
    and "unreadable e" "0 < maxRetries"
  shows "\<exists>s'. executeWithRetry rt operation maxRetries s = (Inl (Thrown (type_error rt)), s') \<and>
           currentIndex (keyManager s') = currentIndex (keyManager s) \<and>
           status (keys (keyManager s') ! currentIndex (keyManager s')) = active"
proof -
  let ?m1 = "checkDailyReset (today_at rt (world s)) (keyManager s)"
  let ?m2 = "notify (update_current
                 (\<lambda>k. k\<lparr>status := active, lastUsed := Some (now_at rt (world s))\<rparr>) ?m1)"
  let ?k = "key (keys ?m1 ! currentIndex ?m1)"
  have c1: "currentIndex ?m1 = currentIndex (keyManager s)" "currentIndex ?m1 < length (keys ?m1)"
    using assms(2) by (simp_all add: checkDailyReset_def)
  have "attempt rt operation s =
      (Some (Inl (Thrown (type_error rt))),
       s\<lparr>keyManager := ?m2, world := w', calls := calls s @ [?k]\<rparr>)"
    unfolding attempt_run[OF assms(1,2)] Let_def
    using assms(3) by (simp add: c1 catch_unreadable[OF assms(4)])
  then have "executeWithRetry rt operation maxRetries s =
      (Inl (Thrown (type_error rt)),
       s\<lparr>keyManager := ?m2, world := w', calls := calls s @ [?k]\<rparr>)"
    unfolding executeWithRetry_def using assms(5) by (intro loop_stop) simp_all
  then show ?thesis
    using c1 by (simp add: notify_def update_current_def)
qed


section \<open>Dispatch scenarios\<close>

lemma dates_rotate:
  assumes "list_all (\<lambda>k. lastResetDate k = today) (keys m)"
    and "markExhaustedAndRotate m = Inr (b, m')"
  shows "list_all (\<lambda>k. lastResetDate k = today) (keys m')"
proof (cases "currentIndex m < length (keys m)")
  case True
  then show ?thesis
    using assms(1) unfolding rotate_keys[OF assms(2)]
    by (intro list_all_update) (simp_all add: list_all_length)
next
  case False
  then show ?thesis
    using assms(2) by (simp add: markExhaustedAndRotate_def)
qed

text \<open>
  One pass of the loop body when the operation answers with a rate-limit failure, on a
  pool with a valid cursor and an available key: the operation is invoked once with the
  key at the cursor, and the pool is then what \<open>markExhaustedAndRotate\<close> makes of the
  pool with that key \<open>active\<close>.
\<close>

lemma attempt_rate_limited:
  assumes av: "list_ex (\<lambda>k. status k = available)
       (keys (checkDailyReset (today_at rt (world s)) (keyManager s)))"
    and c: "currentIndex (keyManager s) < length (keys (keyManager s))"
    and op: "operation (key (keys (keyManager s) ! currentIndex (keyManager s))) (world s) = (Inl e, w')"
    and e: "is_rate_limit e"
  shows "\<exists>b m2 m3.
     m2 = notify (update_current
            (\<lambda>k. k\<lparr>status := active, lastUsed := Some (now_at rt (world s))\<rparr>)
            (checkDailyReset (today_at rt (world s)) (keyManager s))) \<and>
     markExhaustedAndRotate m2 = Inr (b, m3) \<and>
     attempt rt operation s =
       (if b then None else Some (Inl AllKeysExhausted),
        s\<lparr>keyManager := m3, world := (if b then delay rt 2000 w' else w'),
          calls := calls s @ [key (keys (keyManager s) ! currentIndex (keyManager s))]\<rparr>)"
proof -
  let ?m1 = "checkDailyReset (today_at rt (world s)) (keyManager s)"
  define m2 where "m2 = notify (update_current
            (\<lambda>k. k\<lparr>status := active, lastUsed := Some (now_at rt (world s))\<rparr>) ?m1)"
  have k: "key (keys ?m1 ! currentIndex ?m1) = key (keys (keyManager s) ! currentIndex (keyManager s))"
    using c by (simp add: checkDailyReset_def reset_key_def)
  have c2: "currentIndex m2 < length (keys m2)"
    using c by (simp add: m2_def notify_def update_current_def checkDailyReset_def)
  from rotate_outcome[OF c2] obtain b m3 where r: "markExhaustedAndRotate m2 = Inr (b, m3)"
    by blast
  have "attempt rt operation s =
       (if b then None else Some (Inl AllKeysExhausted),
        s\<lparr>keyManager := m3, world := (if b then delay rt 2000 w' else w'),
          calls := calls s @ [key (keys (keyManager s) ! currentIndex (keyManager s))]\<rparr>)"
    unfolding attempt_run[OF av c] Let_def k op m2_def[symmetric]
    using r e by (auto simp: catch_block_def is_rate_limit_def split: sum.splits exn.splits)
  with r show ?thesis
    unfolding m2_def by blast
qed

lemma rotate_outcome_of:
  assumes "markExhaustedAndRotate m = Inr (b, m')" "currentIndex m < length (keys m)"
  shows "keys m' = (keys m)[currentIndex m :=
                  (keys m ! currentIndex m)\<lparr>status := exhausted, errorMessage := Some msg_quota_used_up\<rparr>]"
    and "currentIndex m' < length (keys m')"
    and "b \<Longrightarrow> status (keys m' ! currentIndex m') = available"
    and "\<not> b \<Longrightarrow> currentIndex m' = currentIndex m"
    and "\<not> b \<Longrightarrow> list_all (\<lambda>k. status k \<noteq> available) (keys m')"
  using rotate_outcome[OF assms(2)] assms(1) by auto

lemma status_reset_available:
  "status k = available \<Longrightarrow> status (reset_key today k) = available"
  by (simp add: reset_key_def)

lemma key_reset: "key (reset_key today k) = key k"
  by (simp add: reset_key_def)

text \<open>
  Claim C6. Two keys, both available, the cursor on either of them; the operation
  answers every call with a rate-limit failure; the calendar day does not change while
  the dispatch runs. Then \<open>executeWithRetry\<close> with an attempt budget of 3 invokes the
  operation exactly twice, first with the key at the cursor and then with the other
  key, and fails with the error of a failed rotation; both keys are left exhausted.
\<close>

theorem rate_limited_two_keys:
  fixes operation :: "('w, 'r) operation"
  assumes len: "length (keys (keyManager s)) = 2"
    and avail: "list_all (\<lambda>k. status k = available) (keys (keyManager s))"
    and cur: "currentIndex (keyManager s) < 2"
    and day: "\<forall>w. today_at rt w = d"
    and fails: "\<forall>k w. \<exists>e w'. operation k w = (Inl e, w') \<and> is_rate_limit e"
  shows "\<exists>s'. executeWithRetry rt operation 3 s = (Inl AllKeysExhausted, s') \<and>
           calls s' = calls s @ [key (keys (keyManager s) ! currentIndex (keyManager s)),
                                 key (keys (keyManager s) ! (1 - currentIndex (keyManager s)))] \<and>
           list_all (\<lambda>k. status k = exhausted) (keys (keyManager s'))"
proof -
  let ?m = "keyManager s"
  define c where "c = currentIndex ?m"
  define oth where "oth = 1 - c"
  have idx: "c < 2" "oth < 2" "c \<noteq> oth" "\<And>i. i < 2 \<Longrightarrow> i = c \<or> i = oth"
    using cur unfolding c_def oth_def by arith+
  define m1 where "m1 = checkDailyReset d ?m"
  have l1: "length (keys m1) = 2" and c1: "currentIndex m1 = c"
    using len by (simp_all add: m1_def checkDailyReset_def c_def)
  have st1: "status (keys m1 ! i) = available" and k1: "key (keys m1 ! i) = key (keys ?m ! i)"
    if "i < 2" for i
    using that len avail
    by (simp_all add: m1_def checkDailyReset_def list_all_length status_reset_available key_reset)
  have d1: "list_all (\<lambda>k. lastResetDate k = d) (keys m1)"
    unfolding m1_def by (rule checkDailyReset_dates)
  have "\<exists>n<length (keys m1). status (keys m1 ! n) = available"
    using st1[of 0] l1 by (intro exI[of _ 0]) simp
  then have av1: "list_ex (\<lambda>k. status k = available) (keys (checkDailyReset (today_at rt (world s)) ?m))"
    using day by (simp add: m1_def list_ex_length)
  have cv: "currentIndex ?m < length (keys ?m)"
    using cur len by simp
  from fails obtain e1 w1 where op1: "operation (key (keys ?m ! currentIndex ?m)) (world s) = (Inl e1, w1)"
    and e1: "is_rate_limit e1"
    by blast
  from attempt_rate_limited[where operation=operation and s=s, OF av1 cv op1 e1] obtain b1 m2 m3 where
    m2: "m2 = notify (update_current
            (\<lambda>k. k\<lparr>status := active, lastUsed := Some (now_at rt (world s))\<rparr>) m1)"
    and r1: "markExhaustedAndRotate m2 = Inr (b1, m3)"
    and a1: "attempt rt operation s =
       (if b1 then None else Some (Inl AllKeysExhausted),
        s\<lparr>keyManager := m3, world := (if b1 then delay rt 2000 w1 else w1),
          calls := calls s @ [key (keys ?m ! currentIndex ?m)]\<rparr>)"
    using day unfolding m1_def by auto
  have l2: "length (keys m2) = 2" and c2: "currentIndex m2 = c"
    and k2: "keys m2 = (keys m1)[c := (keys m1 ! c)\<lparr>status := active, lastUsed := Some (now_at rt (world s))\<rparr>]"
    using l1 c1 by (simp_all add: m2 notify_def update_current_def)
  have d2: "list_all (\<lambda>k. lastResetDate k = d) (keys m2)"
    unfolding m2 by (intro dates_update_current d1) simp
  have cv2: "currentIndex m2 < length (keys m2)"
    using idx(1) l2 c2 by simp
  note ro1 = rotate_outcome_of[OF r1 cv2]
  have k3: "keys m3 = (keys m1)[c := (keys m1 ! c)\<lparr>status := active, lastUsed := Some (now_at rt (world s)),
              status := exhausted, errorMessage := Some msg_quota_used_up\<rparr>]"
    using ro1(1) idx(1) l1 unfolding c2 k2 by simp
  have l3: "length (keys m3) = 2"
    using k3 l1 by simp
  have s3c: "status (keys m3 ! c) = exhausted" and s3oth: "status (keys m3 ! oth) = available"
    and key3: "key (keys m3 ! oth) = key (keys ?m ! oth)"
    using idx l1 st1[of oth] k1[of oth] by (simp_all add: k3)
  have "\<not> list_all (\<lambda>k. status k \<noteq> available) (keys m3)"
    using s3oth idx(2) l3 by (auto simp: list_all_length)
  then have b1: b1
    using ro1(5) by blast
  then have "status (keys m3 ! currentIndex m3) = available" "currentIndex m3 < 2"
    using ro1(2,3) l3 by simp_all
  then have c3: "currentIndex m3 = oth"
    using idx(4)[of "currentIndex m3"] s3c by auto
  have d3: "list_all (\<lambda>k. lastResetDate k = d) (keys m3)"
    using dates_rotate[OF d2 r1] .
  define s3 where "s3 = s\<lparr>keyManager := m3, world := delay rt 2000 w1,
          calls := calls s @ [key (keys ?m ! c)]\<rparr>"
  have a1': "attempt rt operation s = (None, s3)"
    using a1 b1 by (simp add: s3_def c_def)
  have r3: "checkDailyReset (today_at rt (world s3)) (keyManager s3) = m3"
    using checkDailyReset_same_day[OF d3] day by (simp add: s3_def)
  have av3: "list_ex (\<lambda>k. status k = available)
      (keys (checkDailyReset (today_at rt (world s3)) (keyManager s3)))"
    unfolding r3 using s3oth idx(2) l3 by (auto simp: list_ex_length)
  have cv3: "currentIndex (keyManager s3) < length (keys (keyManager s3))"
    using c3 idx(2) l3 by (simp add: s3_def)
  from fails obtain e2 w2 where
    op2: "operation (key (keys (keyManager s3) ! currentIndex (keyManager s3))) (world s3) = (Inl e2, w2)"
    and e2: "is_rate_limit e2"
    by blast
  from attempt_rate_limited[where operation=operation and s=s3, OF av3 cv3 op2 e2] obtain b2 m4 m5 where
    m4: "m4 = notify (update_current
            (\<lambda>k. k\<lparr>status := active, lastUsed := Some (now_at rt (world s3))\<rparr>) m3)"
    and r2: "markExhaustedAndRotate m4 = Inr (b2, m5)"
    and a2: "attempt rt operation s3 =
       (if b2 then None else Some (Inl AllKeysExhausted),
        s3\<lparr>keyManager := m5, world := (if b2 then delay rt 2000 w2 else w2),
          calls := calls s3 @ [key (keys (keyManager s3) ! currentIndex (keyManager s3))]\<rparr>)"
    unfolding r3 by auto
  have c4: "currentIndex m4 = oth" and l4: "length (keys m4) = 2"
    and k4: "keys m4 = (keys m3)[oth := (keys m3 ! oth)\<lparr>status := active, lastUsed := Some (now_at rt (world s3))\<rparr>]"
    using c3 l3 by (simp_all add: m4 notify_def update_current_def)
  have cv4: "currentIndex m4 < length (keys m4)"
    using c4 l4 idx(2) by simp
  note ro2 = rotate_outcome_of[OF r2 cv4]
  have k5: "keys m5 = (keys m3)[oth := (keys m3 ! oth)\<lparr>status := active, lastUsed := Some (now_at rt (world s3)),
              status := exhausted, errorMessage := Some msg_quota_used_up\<rparr>]"
    using ro2(1) idx(2) l3 unfolding c4 k4 by simp
  have l5: "length (keys m5) = 2"
    using k5 l3 by simp
  have "status (keys m5 ! c) = exhausted" "status (keys m5 ! oth) = exhausted"
    using idx l3 s3c by (simp_all add: k5)
  then have all5: "status (keys m5 ! i) = exhausted" if "i < 2" for i
    using idx(4)[OF that] by auto
  have "\<not> b2"
  proof
    assume b2
    then have "status (keys m5 ! currentIndex m5) = available"
      using ro2(3) by simp
    moreover have "currentIndex m5 < 2"
      using ro2(2) l5 by simp
    ultimately show False
      using all5 by auto
  qed
  then have a2': "attempt rt operation s3 =
      (Some (Inl AllKeysExhausted),
       s3\<lparr>keyManager := m5, world := w2, calls := calls s3 @ [key (keys ?m ! oth)]\<rparr>)"
    using a2 key3 c3 by (simp add: s3_def)
  have "executeWithRetry rt operation 3 s = executeWithRetry_loop rt operation 3 (0 + 1) s3"
    unfolding executeWithRetry_def using a1' by (intro loop_continue) simp_all
  also have "\<dots> = (Inl AllKeysExhausted,
       s3\<lparr>keyManager := m5, world := w2, calls := calls s3 @ [key (keys ?m ! oth)]\<rparr>)"
    using a2' by (intro loop_stop) simp_all
  finally show ?thesis
    using all5 l5 by (simp add: s3_def c_def oth_def list_all_length)
qed

theorem rate_limited_two_keys_witness:
  "length (keys (keyManager (service_of two_key_pool))) = 2 \<and>
   list_all (\<lambda>k. status k = available) (keys (keyManager (service_of two_key_pool))) \<and>
   currentIndex (keyManager (service_of two_key_pool)) < 2 \<and>
   (\<forall>w. today_at fixed_runtime w = ascii ''2025-01-01'') \<and>
   (\<forall>k w. \<exists>e w'. always_rate_limited k w = (Inl e, w') \<and> is_rate_limit e) \<and>
   (\<exists>s'. executeWithRetry fixed_runtime always_rate_limited 3 (service_of two_key_pool)
            = (Inl AllKeysExhausted, s') \<and>
         calls s' = [ascii ''k1'', ascii ''k2''] \<and>
         list_all (\<lambda>k. status k = exhausted) (keys (keyManager s')))"
proof -
  have h: "length (keys (keyManager (service_of two_key_pool))) = 2"
    "list_all (\<lambda>k. status k = available) (keys (keyManager (service_of two_key_pool)))"
    "currentIndex (keyManager (service_of two_key_pool)) < 2"
    "\<forall>w. today_at fixed_runtime w = ascii ''2025-01-01''"
    "\<forall>k w. \<exists>e w'. always_rate_limited k w = (Inl e, w') \<and> is_rate_limit e"
    by (simp_all add: service_of_def two_key_pool_eval fixed_runtime_def always_rate_limited_def
        classify_examples)
  from rate_limited_two_keys[where operation=always_rate_limited, OF h] show ?thesis
    using h by (simp add: service_of_def two_key_pool_eval)
qed

text \<open>
  Claim C7, as amended. The pool holds the two keys \<open>a\<close> and \<open>b\<close>, both available and
  \<open>b\<close> last reset today, the cursor on \<open>a\<close>; the first call of the operation, with the
  key of \<open>a\<close>, fails with a not-found failure that the \<open>catch\<close> block can read and
  that does not pass its rate-limit test, which comes first: the status is not 429 and
  the message contains neither \<open>429\<close> nor \<open>RESOURCE_EXHAUSTED\<close>. Then the dispatch ends
  at once with the not-found error, which carries the message of the failure: the
  operation has been invoked that one time only, the entry of \<open>a\<close> is in state \<open>error\<close>
  with the fixed diagnostic of \<open>markError\<close>, the cursor is still 0 and the entry of
  \<open>b\<close> is what it was.
\<close>

theorem not_found_fails_at_once:
  fixes operation :: "('w, 'r) operation"
  assumes "keys (keyManager s) = [a, b]" "currentIndex (keyManager s) = 0"
    and "status a = available" "status b = available"
    and "lastResetDate b = today_at rt (world s)"
    and "0 < maxRetries"
    and "operation (key a) (world s) = (Inl e, w')"
    and "is_not_found e" "\<not> is_rate_limit e" "\<not> unreadable e"
  shows "\<exists>s' t. errorMessage_of e = Inr (Str t) \<and>
           executeWithRetry rt operation maxRetries s = (Inl (NotFoundError (Str t)), s') \<and>
           calls s' = calls s @ [key a] \<and>
           currentIndex (keyManager s') = 0 \<and>
           keys (keyManager s') =
             [(reset_key (today_at rt (world s)) a)
                \<lparr>status := error, lastUsed := Some (now_at rt (world s)),
                 errorMessage := Some msg_invalid_key\<rparr>, b] \<and>
           status (keys (keyManager s') ! 1) = available"
proof -
  let ?t = "today_at rt (world s)"
  let ?m1 = "checkDailyReset ?t (keyManager s)"
  let ?m2 = "notify (update_current
                 (\<lambda>k. k\<lparr>status := active, lastUsed := Some (now_at rt (world s))\<rparr>) ?m1)"
  from readable_message[OF assms(10,9)] obtain t where t: "errorMessage_of e = Inr (Str t)"
    by blast
  have k1: "keys ?m1 = [reset_key ?t a, b]" and c1: "currentIndex ?m1 = 0"
    using assms(1,2,5) by (simp_all add: checkDailyReset_def reset_key_same_day)
  have av: "list_ex (\<lambda>k. status k = available) (keys ?m1)"
    using assms(4) by (simp add: k1)
  have cv: "currentIndex (keyManager s) < length (keys (keyManager s))"
    using assms(1,2) by simp
  have c2: "currentIndex (keyManager (s\<lparr>keyManager := ?m2, world := w', calls := calls s @ [key a]\<rparr>))
      < length (keys (keyManager (s\<lparr>keyManager := ?m2, world := w', calls := calls s @ [key a]\<rparr>)))"
    using k1 c1 by (simp add: notify_def update_current_def)
  have "attempt rt operation s =
      (Some (Inl (NotFoundError (Str t))),
       s\<lparr>keyManager := notify (update_current
              (\<lambda>k. k\<lparr>status := error, errorMessage := Some msg_invalid_key\<rparr>) ?m2),
         world := w', calls := calls s @ [key a]\<rparr>)"
    unfolding attempt_run[OF av cv] Let_def k1 c1
    using assms(7) c2
    by (simp add: key_reset k1 c1 catch_not_found[OF t assms(9,8)])
  then have "executeWithRetry rt operation maxRetries s =
      (Inl (NotFoundError (Str t)),
       s\<lparr>keyManager := notify (update_current
              (\<lambda>k. k\<lparr>status := error, errorMessage := Some msg_invalid_key\<rparr>) ?m2),
         world := w', calls := calls s @ [key a]\<rparr>)"
    unfolding executeWithRetry_def using assms(6) by (intro loop_stop) simp_all
  then show ?thesis
    using assms(4) t by (simp add: notify_def update_current_def k1 c1)
qed

lemma not_found_message: "errorMessage_of not_found = Inr (Str (ascii ''model is unknown''))"
  by (simp add: errorMessage_of_def not_found_def ascii_def)

theorem not_found_fails_at_once_witness:
  "keys (keyManager (service_of two_key_pool)) =
     [\<lparr>key = ascii ''k1'', status = available, lastUsed = None, requestCount = 0,
       lastResetDate = ascii ''2025-01-01'', errorMessage = None\<rparr>,
      \<lparr>key = ascii ''k2'', status = available, lastUsed = None, requestCount = 0,
       lastResetDate = ascii ''2025-01-01'', errorMessage = None\<rparr>] \<and>
   currentIndex (keyManager (service_of two_key_pool)) = 0 \<and>
   today_at fixed_runtime (world (service_of two_key_pool)) = ascii ''2025-01-01'' \<and>
   always_not_found (ascii ''k1'') (world (service_of two_key_pool)) = (Inl not_found, 1) \<and>
   is_not_found not_found \<and> \<not> is_rate_limit not_found \<and> \<not> unreadable not_found \<and>
   (\<exists>s'. executeWithRetry fixed_runtime always_not_found 3 (service_of two_key_pool)
           = (Inl (NotFoundError (Str (ascii ''model is unknown''))), s') \<and>
         calls s' = [ascii ''k1''] \<and> currentIndex (keyManager s') = 0 \<and>
         keys (keyManager s') =
           [\<lparr>key = ascii ''k1'', status = error, lastUsed = Some 0, requestCount = 0,
             lastResetDate = ascii ''2025-01-01'', errorMessage = Some msg_invalid_key\<rparr>,
            \<lparr>key = ascii ''k2'', status = available, lastUsed = None, requestCount = 0,
             lastResetDate = ascii ''2025-01-01'', errorMessage = None\<rparr>])"
proof -
  let ?a = "\<lparr>key = ascii ''k1'', status = available, lastUsed = None, requestCount = 0,
       lastResetDate = ascii ''2025-01-01'', errorMessage = None\<rparr>"
  let ?b = "\<lparr>key = ascii ''k2'', status = available, lastUsed = None, requestCount = 0,
       lastResetDate = ascii ''2025-01-01'', errorMessage = None\<rparr>"
  have h: "keys (keyManager (service_of two_key_pool)) = [?a, ?b]"
    "currentIndex (keyManager (service_of two_key_pool)) = 0"
    "status ?a = available" "status ?b = available"
    "lastResetDate ?b = today_at fixed_runtime (world (service_of two_key_pool))"
    "0 < (3::nat)"
    "always_not_found (key ?a) (world (service_of two_key_pool)) = (Inl not_found, 1)"
    "is_not_found not_found" "\<not> is_rate_limit not_found" "\<not> unreadable not_found"
    by (simp_all add: service_of_def two_key_pool_eval fixed_runtime_def always_not_found_def
        classify_examples)
  from not_found_fails_at_once[where operation=always_not_found, OF h] show ?thesis
    using h by (auto simp: not_found_message reset_key_def fixed_runtime_def service_of_def)
qed

text \<open>
  Claim C7 as stated fails, in two ways. A not-found failure with status 404 whose
  message contains \<open>429\<close> passes the rate-limit test, which the \<open>catch\<close> block makes
  first: the entry of \<open>k1\<close> is marked \<open>exhausted\<close>, the cursor moves to \<open>k2\<close>, the
  operation is invoked again with \<open>k2\<close>, and the dispatch ends with the error for
  exhausted keys, \<open>k2\<close> being \<open>exhausted\<close> too. And on a not-found failure with status
  404 whose message is not a string the rate-limit test throws a \<open>TypeError\<close>: no
  \<open>markError\<close> is invoked, \<open>k1\<close> stays \<open>active\<close>.
\<close>

theorem not_found_counterexample:
  "is_not_found not_found_429 \<and> status_of not_found_429 = Some 404 \<and>
   (\<exists>s'. executeWithRetry fixed_runtime always_not_found_429 3 (service_of two_key_pool)
           = (Inl AllKeysExhausted, s') \<and>
         calls s' = [ascii ''k1'', ascii ''k2''] \<and>
         currentIndex (keyManager s') = 1 \<and>
         map status (keys (keyManager s')) = [exhausted, exhausted]) \<and>
   is_not_found not_found_numeric \<and> status_of not_found_numeric = Some 404 \<and>
   (\<exists>s'. executeWithRetry fixed_runtime always_not_found_numeric 3 (service_of two_key_pool)
           = (Inl (Thrown (type_error fixed_runtime)), s') \<and>
         calls s' = [ascii ''k1''] \<and>
         map status (keys (keyManager s')) = [active, available])"
proof -
  have m: "errorMessage_of not_found_429 = Inr (Str (ascii ''request 4291: model not found''))"
    "status_of not_found_429 = Some 404"
    "errorMessage_of not_found_numeric = Inr NotStr"
    "status_of not_found_numeric = Some 404"
    by (simp_all add: not_found_429_def not_found_numeric_def errorMessage_of_def status_of_def
        ascii_def)
  have r: "rate_limit_test (Some 404) (Str (ascii ''request 4291: model not found'')) = Inr True"
    by (simp add: rate_limit_test_Str ascii_def)
  have k: "is_not_found not_found_429" "is_rate_limit not_found_429"
    "is_not_found not_found_numeric" "unreadable not_found_numeric"
    by (simp_all add: is_not_found_def is_rate_limit_def unreadable_def m r
        not_found_test_Str not_found_test_NotStr rate_limit_test_NotStr)
  have a: "\<exists>s'. executeWithRetry fixed_runtime always_not_found_429 3 (service_of two_key_pool)
           = (Inl AllKeysExhausted, s') \<and>
         calls s' = [ascii ''k1'', ascii ''k2''] \<and>
         currentIndex (keyManager s') = 1 \<and>
         map status (keys (keyManager s')) = [exhausted, exhausted]"
    by (simp add: executeWithRetry_def executeWithRetry_loop.simps attempt_def catch_block_def
        m r fixed_runtime_def always_not_found_429_def service_of_def two_key_pool_eval
        hasAvailableKey_def checkDailyReset_def reset_key_def markAsActive_def getCurrentKey_def
        markExhaustedAndRotate_def rotate_loop.simps notify_def update_current_def Let_def)
  have b: "\<exists>s'. executeWithRetry fixed_runtime always_not_found_numeric 3 (service_of two_key_pool)
           = (Inl (Thrown (type_error fixed_runtime)), s') \<and>
         calls s' = [ascii ''k1''] \<and>
         map status (keys (keyManager s')) = [active, available]"
    by (simp add: executeWithRetry_def executeWithRetry_loop.simps attempt_def
        catch_unreadable[OF k(4)] always_not_found_numeric_def service_of_def
        two_key_pool_eval fixed_runtime_def hasAvailableKey_def checkDailyReset_def reset_key_def
        markAsActive_def getCurrentKey_def notify_def update_current_def Let_def)
  show ?thesis
    using m(2,4) k(1,3) a b by simp
qed

text \<open>
  Claim C9. On a pool with a valid cursor \<open>markSuccess\<close> does not throw; it changes the
  entry at the cursor only, setting it to \<open>available\<close> with its count raised by one,
  and leaves the cursor where it is, so that \<open>getCurrentKey\<close> right after it returns
  the key it returned right before it. And on a pool of one fresh available key, when
  the first call of the operation succeeds, the dispatch returns that result after one
  invocation, with the key available, its count 1, the cursor unmoved, no diagnostic
  written and exactly two broadcasts made (for \<open>markAsActive\<close> and \<open>markSuccess\<close>):
  no rotation has been attempted.
\<close>

theorem markSuccess_keeps_credential:
  fixes operation :: "('w, 'r) operation"
  shows "(currentIndex m < length (keys m) \<longrightarrow>
      (\<exists>m'. markSuccess now m = Inr m' \<and>
         keys m' = (keys m)[currentIndex m := (keys m ! currentIndex m)
             \<lparr>status := available, requestCount := requestCount (keys m ! currentIndex m) + 1,
              lastUsed := Some now\<rparr>] \<and>
         currentIndex m' = currentIndex m \<and>
         snd (getCurrentKey today' m') = snd (getCurrentKey today m) \<and>
         snd (getCurrentKey today' m') = Inr (key (keys m ! currentIndex m)))) \<and>
   (keys (keyManager s) = [a] \<and> currentIndex (keyManager s) = 0 \<and> status a = available \<and>
    requestCount a = 0 \<and> errorMessage a = None \<and> 0 < maxRetries \<and>
    operation (key a) (world s) = (Inr result, w') \<longrightarrow>
      (\<exists>s'. executeWithRetry rt operation maxRetries s = (Inr result, s') \<and>
         calls s' = calls s @ [key a] \<and>
         currentIndex (keyManager s') = 0 \<and>
         keys (keyManager s') =
           [a\<lparr>status := available, requestCount := 1, lastUsed := Some (now_at rt w'),
              lastResetDate := today_at rt (world s)\<rparr>] \<and>
         length (delivered (keyManager s')) =
           length (delivered (keyManager s)) + 2 * length (listeners (keyManager s))))"
proof (intro conjI impI)
  assume c: "currentIndex m < length (keys m)"
  then show "\<exists>m'. markSuccess now m = Inr m' \<and>
         keys m' = (keys m)[currentIndex m := (keys m ! currentIndex m)
             \<lparr>status := available, requestCount := requestCount (keys m ! currentIndex m) + 1,
              lastUsed := Some now\<rparr>] \<and>
         currentIndex m' = currentIndex m \<and>
         snd (getCurrentKey today' m') = snd (getCurrentKey today m) \<and>
         snd (getCurrentKey today' m') = Inr (key (keys m ! currentIndex m))"
    by (simp add: markSuccess_def notify_def update_current_def getCurrentKey_def
        checkDailyReset_def Let_def key_reset)
next
  assume h: "keys (keyManager s) = [a] \<and> currentIndex (keyManager s) = 0 \<and> status a = available \<and>
    requestCount a = 0 \<and> errorMessage a = None \<and> 0 < maxRetries \<and>
    operation (key a) (world s) = (Inr result, w')"
  let ?t = "today_at rt (world s)"
  let ?m1 = "checkDailyReset ?t (keyManager s)"
  let ?m2 = "notify (update_current
                 (\<lambda>k. k\<lparr>status := active, lastUsed := Some (now_at rt (world s))\<rparr>) ?m1)"
  let ?m4 = "notify (update_current
                 (\<lambda>current. current\<lparr>status := available,
                     requestCount := requestCount current + 1, lastUsed := Some (now_at rt w')\<rparr>) ?m2)"
  have ra: "reset_key ?t a = a\<lparr>lastResetDate := ?t\<rparr>"
    using h by (simp add: reset_key_def)
  have k1: "keys ?m1 = [a\<lparr>lastResetDate := ?t\<rparr>]" and c1: "currentIndex ?m1 = 0"
    using h by (simp_all add: checkDailyReset_def ra)
  have av: "list_ex (\<lambda>k. status k = available) (keys ?m1)"
    using h by (simp add: k1)
  have cv: "currentIndex (keyManager s) < length (keys (keyManager s))"
    using h by simp
  have "attempt rt operation s =
      (Some (Inr result), s\<lparr>keyManager := ?m4, world := w', calls := calls s @ [key a]\<rparr>)"
    unfolding attempt_run[OF av cv] Let_def k1 c1 using h by simp
  then have "executeWithRetry rt operation maxRetries s =
      (Inr result, s\<lparr>keyManager := ?m4, world := w', calls := calls s @ [key a]\<rparr>)"
    unfolding executeWithRetry_def using h by (intro loop_stop) simp_all
  moreover have "listeners ?m1 = listeners (keyManager s)" "delivered ?m1 = delivered (keyManager s)"
    by (simp_all add: checkDailyReset_def)
  ultimately show "\<exists>s'. executeWithRetry rt operation maxRetries s = (Inr result, s') \<and>
         calls s' = calls s @ [key a] \<and>
         currentIndex (keyManager s') = 0 \<and>
         keys (keyManager s') =
           [a\<lparr>status := available, requestCount := 1, lastUsed := Some (now_at rt w'),
              lastResetDate := today_at rt (world s)\<rparr>] \<and>
         length (delivered (keyManager s')) =
           length (delivered (keyManager s)) + 2 * length (listeners (keyManager s))"
    using h by (simp add: notify_def update_current_def k1 c1)
qed

lemma one_key_pool_eval:
  "one_key_pool = \<lparr>keys =
        [\<lparr>key = ascii ''k1'', status = available, lastUsed = None, requestCount = 0,
          lastResetDate = ascii ''2025-01-01'', errorMessage = None\<rparr>],
      currentIndex = 0, listeners = [7], delivered = []\<rparr>"
  by (simp add: one_key_pool_def subscribe_def new_ApiKeyManager_def trim_plain)

theorem markSuccess_keeps_credential_witness:
  "currentIndex one_key_pool < length (keys one_key_pool) \<and>
   (\<exists>m'. markSuccess 5 one_key_pool = Inr m' \<and>
      snd (getCurrentKey (ascii ''2025-01-02'') m') = Inr (ascii ''k1'') \<and>
      snd (getCurrentKey (ascii ''2025-01-01'') one_key_pool) = Inr (ascii ''k1'')) \<and>
   keys (keyManager (service_of one_key_pool)) =
     [\<lparr>key = ascii ''k1'', status = available, lastUsed = None, requestCount = 0,
       lastResetDate = ascii ''2025-01-01'', errorMessage = None\<rparr>] \<and>
   always_ok (ascii ''k1'') (world (service_of one_key_pool)) = (Inr (ascii ''ok''), 1) \<and>
   (\<exists>s'. executeWithRetry fixed_runtime always_ok 3 (service_of one_key_pool)
          = (Inr (ascii ''ok''), s') \<and>
      calls s' = [ascii ''k1''] \<and> currentIndex (keyManager s') = 0 \<and>
      keys (keyManager s') =
        [\<lparr>key = ascii ''k1'', status = available, lastUsed = Some 1, requestCount = 1,
          lastResetDate = ascii ''2025-01-01'', errorMessage = None\<rparr>] \<and>
      length (delivered (keyManager s')) = 2)"
proof -
  let ?a = "\<lparr>key = ascii ''k1'', status = available, lastUsed = None, requestCount = 0,
       lastResetDate = ascii ''2025-01-01'', errorMessage = None\<rparr>"
  have h1: "currentIndex one_key_pool < length (keys one_key_pool)"
    by (simp add: one_key_pool_eval)
  have h2: "keys (keyManager (service_of one_key_pool)) = [?a] \<and>
    currentIndex (keyManager (service_of one_key_pool)) = 0 \<and> status ?a = available \<and>
    requestCount ?a = 0 \<and> errorMessage ?a = None \<and> 0 < (3::nat) \<and>
    always_ok (key ?a) (world (service_of one_key_pool)) = (Inr (ascii ''ok''), 1)"
    by (simp add: one_key_pool_eval service_of_def always_ok_def)
  from markSuccess_keeps_credential
    [where operation=always_ok and m=one_key_pool and now=5 and today'="ascii ''2025-01-02''"
       and today="ascii ''2025-01-01''" and s="service_of one_key_pool" and a="?a"
       and maxRetries=3 and result="ascii ''ok''" and w'=1 and rt=fixed_runtime]
  show ?thesis
    using h1 h2
    by (auto simp: one_key_pool_eval service_of_def fixed_runtime_def getCurrentKey_def
        checkDailyReset_def reset_key_def Let_def)
qed
section \<open>Reads and the daily reset\<close>

lemma read_is_reset: "is_read c \<Longrightarrow> after_call today c m = checkDailyReset today m"
  by (cases c) (simp_all add: getCurrentKey_def hasAvailableKey_def getKeyStatuses_def Let_def)

lemma dates_after_call:
  assumes "list_all (\<lambda>k. lastResetDate k = today) (keys m)"
  shows "list_all (\<lambda>k. lastResetDate k = today) (keys (after_call today c m))"
proof (cases c)
  case (MarkAsActive now)
  then show ?thesis
    using assms by (auto simp: markAsActive_def intro!: dates_update_current)
next
  case (MarkSuccess now)
  then show ?thesis
    using assms by (auto simp: markSuccess_def intro!: dates_update_current)
next
  case MarkExhaustedAndRotate
  then show ?thesis
    using assms dates_rotate[OF assms] by (auto split: sum.splits)
next
  case (MarkError err)
  then show ?thesis
    using assms by (auto simp: markError_def intro!: dates_update_current)
qed (simp_all add: getCurrentKey_def hasAvailableKey_def getKeyStatuses_def Let_def
    checkDailyReset_dates)

lemma reads_vanish:
  "list_all (\<lambda>k. lastResetDate k = today) (keys m) \<Longrightarrow>
   after_calls today cs m = after_calls today (filter (\<lambda>c. \<not> is_read c) cs) m"
proof (induction cs arbitrary: m)
  case Nil
  then show ?case by simp
next
  case (Cons c cs)
  show ?case
  proof (cases "is_read c")
    case True
    then have "after_call today c m = m"
      using Cons.prems by (simp add: read_is_reset checkDailyReset_same_day)
    then show ?thesis
      using True Cons.IH[OF Cons.prems] by simp
  next
    case False
    then show ?thesis
      using Cons.IH[OF dates_after_call[OF Cons.prems, of c]] by simp
  qed
qed

text \<open>
  Claim C8. A read (\<open>getCurrentKey\<close>, \<open>hasAvailableKey\<close>, \<open>getKeyStatuses\<close>) changes
  the pool by the daily reset and by nothing else, and what it returns is read from the
  reset pool. The reset turns every entry whose \<open>lastResetDate\<close> is not today into an
  available entry with count 0, no diagnostic and today's date, and leaves the other
  entries as they are. On one day, a read after a read changes nothing; and after a
  first read, any sequence of reads and marks leaves the pool that the marks alone
  leave.
\<close>

theorem lazy_reset_idempotent:
  "(is_read c \<longrightarrow> after_call today c m = checkDailyReset today m) \<and>
   snd (getCurrentKey today m) = snd (getCurrentKey today (checkDailyReset today m)) \<and>
   snd (hasAvailableKey today m) = list_ex (\<lambda>k. status k = available) (keys (checkDailyReset today m)) \<and>
   snd (getKeyStatuses today m) = keys (checkDailyReset today m) \<and>
   length (keys (checkDailyReset today m)) = length (keys m) \<and>
   (\<forall>i < length (keys m).
      keys (checkDailyReset today m) ! i =
        (if lastResetDate (keys m ! i) \<noteq> today
         then (keys m ! i)\<lparr>status := available, requestCount := 0,
                            lastResetDate := today, errorMessage := None\<rparr>
         else keys m ! i)) \<and>
   currentIndex (checkDailyReset today m) = currentIndex m \<and>
   (is_read c \<and> is_read c' \<longrightarrow>
      after_call today c' (after_call today c m) = after_call today c m) \<and>
   (is_read c \<longrightarrow>
      after_calls today (c # cs) m =
        after_calls today (filter (\<lambda>x. \<not> is_read x) cs) (checkDailyReset today m))"
proof (intro conjI impI allI)
  assume "is_read c"
  then show "after_call today c m = checkDailyReset today m"
    by (rule read_is_reset)
next
  show "snd (getCurrentKey today m) = snd (getCurrentKey today (checkDailyReset today m))"
    by (simp add: getCurrentKey_def Let_def checkDailyReset_idem)
next
  show "snd (hasAvailableKey today m) = list_ex (\<lambda>k. status k = available) (keys (checkDailyReset today m))"
    by (simp add: hasAvailableKey_def Let_def)
next
  show "snd (getKeyStatuses today m) = keys (checkDailyReset today m)"
    by (simp add: getKeyStatuses_def Let_def)
next
  show "length (keys (checkDailyReset today m)) = length (keys m)"
    by (simp add: checkDailyReset_def)
next
  fix i assume "i < length (keys m)"
  then show "keys (checkDailyReset today m) ! i =
        (if lastResetDate (keys m ! i) \<noteq> today
         then (keys m ! i)\<lparr>status := available, requestCount := 0,
                            lastResetDate := today, errorMessage := None\<rparr>
         else keys m ! i)"
    by (simp add: checkDailyReset_def reset_key_def)
next
  show "currentIndex (checkDailyReset today m) = currentIndex m"
    by (simp add: checkDailyReset_def)
next
  assume "is_read c \<and> is_read c'"
  then show "after_call today c' (after_call today c m) = after_call today c m"
    by (simp add: read_is_reset checkDailyReset_idem)
next
  assume "is_read c"
  then have "after_calls today (c # cs) m = after_calls today cs (checkDailyReset today m)"
    by (simp add: read_is_reset)
  also have "\<dots> = after_calls today (filter (\<lambda>x. \<not> is_read x) cs) (checkDailyReset today m)"
    by (rule reads_vanish) (rule checkDailyReset_dates)
  finally show "after_calls today (c # cs) m =
      after_calls today (filter (\<lambda>x. \<not> is_read x) cs) (checkDailyReset today m)" .
qed

theorem lazy_reset_idempotent_witness:
  "is_read HasAvailableKey \<and> is_read GetCurrentKey \<and> (1::nat) < length (keys wrap_pool) \<and>
   lastResetDate (keys wrap_pool ! 0) \<noteq> ascii ''2025-01-02'' \<and>
   keys (checkDailyReset (ascii ''2025-01-02'') wrap_pool) ! 0 =
     \<lparr>key = ascii ''k1'', status = available, lastUsed = Some 5, requestCount = 0,
      lastResetDate = ascii ''2025-01-02'', errorMessage = None\<rparr> \<and>
   after_call (ascii ''2025-01-02'') GetCurrentKey
       (after_call (ascii ''2025-01-02'') HasAvailableKey wrap_pool)
     = after_call (ascii ''2025-01-02'') HasAvailableKey wrap_pool \<and>
   after_calls (ascii ''2025-01-02'')
       [HasAvailableKey, MarkAsActive 9, GetKeyStatuses, MarkSuccess 11, GetCurrentKey] wrap_pool
     = after_calls (ascii ''2025-01-02'') [MarkAsActive 9, MarkSuccess 11]
         (checkDailyReset (ascii ''2025-01-02'') wrap_pool)"
proof -
  let ?d = "ascii ''2025-01-02''"
  note t = lazy_reset_idempotent[of HasAvailableKey ?d wrap_pool GetCurrentKey
      "[MarkAsActive 9, GetKeyStatuses, MarkSuccess 11, GetCurrentKey]"]
  have r: "is_read HasAvailableKey" "is_read GetCurrentKey"
    by simp_all
  have l: "(1::nat) < length (keys wrap_pool)"
    "lastResetDate (keys wrap_pool ! 0) \<noteq> ?d"
    by (simp_all add: wrap_pool_def ascii_def)
  have "(0::nat) < length (keys wrap_pool)"
    by (simp add: wrap_pool_def)
  with t have "keys (checkDailyReset ?d wrap_pool) ! 0 =
        (if lastResetDate (keys wrap_pool ! 0) \<noteq> ?d
         then (keys wrap_pool ! 0)\<lparr>status := available, requestCount := 0,
                            lastResetDate := ?d, errorMessage := None\<rparr>
         else keys wrap_pool ! 0)"
    by blast
  then have k: "keys (checkDailyReset ?d wrap_pool) ! 0 =
     \<lparr>key = ascii ''k1'', status = available, lastUsed = Some 5, requestCount = 0,
      lastResetDate = ?d, errorMessage = None\<rparr>"
    using l(2) by (simp add: wrap_pool_def)
  from t r have a: "after_call ?d GetCurrentKey (after_call ?d HasAvailableKey wrap_pool)
     = after_call ?d HasAvailableKey wrap_pool"
    by blast
  from t r have "after_calls ?d
       (HasAvailableKey # [MarkAsActive 9, GetKeyStatuses, MarkSuccess 11, GetCurrentKey]) wrap_pool
     = after_calls ?d (filter (\<lambda>x. \<not> is_read x)
         [MarkAsActive 9, GetKeyStatuses, MarkSuccess 11, GetCurrentKey])
         (checkDailyReset ?d wrap_pool)"
    by blast
  then have b: "after_calls ?d
       [HasAvailableKey, MarkAsActive 9, GetKeyStatuses, MarkSuccess 11, GetCurrentKey] wrap_pool
     = after_calls ?d [MarkAsActive 9, MarkSuccess 11] (checkDailyReset ?d wrap_pool)"
    by (simp only: filter.simps is_read.simps not_True_eq_False not_False_eq_True if_True if_False)
  from r l k a b show ?thesis
    by (intro conjI)
qed
section \<open>Snapshots\<close>

lemma fold_reset_objects:
  "objects (fold (\<lambda>r h. h\<lparr>objects := (objects h)[r := f (objects h ! r)]\<rparr>) rs h)
     = fold (\<lambda>r os. os[r := f (os ! r)]) rs (objects h) \<and>
   arrays (fold (\<lambda>r h. h\<lparr>objects := (objects h)[r := f (objects h ! r)]\<rparr>) rs h) = arrays h"
  by (induction rs arbitrary: h) simp_all

lemma fold_update_length: "length (fold (\<lambda>r os. os[r := f (os ! r)]) rs os) = length os"
  by (induction rs arbitrary: os) simp_all

lemma fold_update_nth:
  assumes "\<And>x. f (f x) = f x" "r < length os"
  shows "fold (\<lambda>r os. os[r := f (os ! r)]) rs os ! r = (if r \<in> set rs then f (os ! r) else os ! r)"
  using assms(2)
proof (induction rs arbitrary: os)
  case Nil
  then show ?case by simp
next
  case (Cons q rs)
  have "r < length (os[q := f (os ! q)])"
    using Cons.prems by simp
  from Cons.IH[OF this] show ?case
    using Cons.prems assms(1) by (cases "r = q") simp_all
qed

lemma ref_checkDailyReset_state:
  assumes "ref_wf rm"
  shows "pool_state (ref_checkDailyReset today rm) = map (reset_key today) (pool_state rm)"
    and "ref_wf (ref_checkDailyReset today rm)"
    and "keys_ref (ref_checkDailyReset today rm) = keys_ref rm"
    and "arrays (heap (ref_checkDailyReset today rm)) = arrays (heap rm)"
proof -
  let ?rs = "arrays (heap rm) ! keys_ref rm"
  let ?h' = "heap (ref_checkDailyReset today rm)"
  have a: "arrays ?h' = arrays (heap rm)"
    and o: "objects ?h' = fold (\<lambda>r os. os[r := reset_key today (os ! r)]) ?rs (objects (heap rm))"
    by (simp_all add: ref_checkDailyReset_def fold_reset_objects)
  show "arrays (heap (ref_checkDailyReset today rm)) = arrays (heap rm)"
    by (rule a)
  show kr: "keys_ref (ref_checkDailyReset today rm) = keys_ref rm"
    by (simp add: ref_checkDailyReset_def)
  show "ref_wf (ref_checkDailyReset today rm)"
    using assms unfolding ref_wf_def a o kr by (simp add: fold_update_length)
  have "objects ?h' ! r = reset_key today (objects (heap rm) ! r)" if "r \<in> set ?rs" for r
  proof -
    have "r < length (objects (heap rm))"
      using assms that by (simp add: ref_wf_def list_all_iff)
    then show ?thesis
      unfolding o using that by (simp add: fold_update_nth reset_key_idem)
  qed
  then show "pool_state (ref_checkDailyReset today rm) = map (reset_key today) (pool_state rm)"
    unfolding pool_state_def a kr by simp
qed

lemma set_array_other:
  "a \<noteq> keys_ref rm \<Longrightarrow> pool_state (rm\<lparr>heap := set_array a xs (heap rm)\<rparr>) = pool_state rm"
  by (simp add: pool_state_def set_array_def)

lemma write_field_visible:
  assumes "arrays (heap rm) ! a = arrays (heap rm) ! keys_ref rm"
    and "i < length (arrays (heap rm) ! keys_ref rm)"
    and "arrays (heap rm) ! keys_ref rm ! i < length (objects (heap rm))"
  shows "pool_state (rm\<lparr>heap := write_field a i f (heap rm)\<rparr>) ! i = f (pool_state rm ! i)"
  using assms by (simp add: pool_state_def write_field_def)

lemma ref_notify_fold:
  "keys_ref rm < length (arrays (heap rm)) \<Longrightarrow>
   fold (\<lambda>listener rm.
             let (a, h) = spread (keys_ref rm) (heap rm)
             in rm\<lparr>heap := h, ref_delivered := ref_delivered rm @ [(listener, a)]\<rparr>) ls rm
   = rm\<lparr>heap := (heap rm)\<lparr>arrays := arrays (heap rm)
                      @ replicate (length ls) (arrays (heap rm) ! keys_ref rm)\<rparr>,
        ref_delivered := ref_delivered rm
          @ map (\<lambda>(l, j). (l, length (arrays (heap rm)) + j)) (zip ls [0..<length ls])\<rparr>"
proof (induction ls arbitrary: rm)
  case Nil
  then show ?case by simp
next
  case (Cons l ls)
  let ?n = "length (arrays (heap rm))"
  let ?ks = "arrays (heap rm) ! keys_ref rm"
  define rm1 where "rm1 = rm\<lparr>heap := (heap rm)\<lparr>arrays := arrays (heap rm) @ [?ks]\<rparr>,
      ref_delivered := ref_delivered rm @ [(l, ?n)]\<rparr>"
  have k1: "keys_ref rm1 < length (arrays (heap rm1))"
    "arrays (heap rm1) ! keys_ref rm1 = ?ks" "length (arrays (heap rm1)) = Suc ?n"
    using Cons.prems by (simp_all add: rm1_def nth_append)
  have z: "zip (l # ls) [0..<length (l # ls)] = (l, 0) # map (\<lambda>(x, j). (x, Suc j)) (zip ls [0..<length ls])"
    by (simp add: upt_conv_Cons map_Suc_upt[symmetric] zip_map2 del: upt_Suc)
  have "fold (\<lambda>listener rm.
             let (a, h) = spread (keys_ref rm) (heap rm)
             in rm\<lparr>heap := h, ref_delivered := ref_delivered rm @ [(listener, a)]\<rparr>) (l # ls) rm
      = fold (\<lambda>listener rm.
             let (a, h) = spread (keys_ref rm) (heap rm)
             in rm\<lparr>heap := h, ref_delivered := ref_delivered rm @ [(listener, a)]\<rparr>) ls rm1"
    by (simp add: spread_def alloc_array_def rm1_def)
  also have "\<dots> = rm1\<lparr>heap := (heap rm1)\<lparr>arrays := arrays (heap rm1)
                      @ replicate (length ls) (arrays (heap rm1) ! keys_ref rm1)\<rparr>,
        ref_delivered := ref_delivered rm1
          @ map (\<lambda>(l, j). (l, length (arrays (heap rm1)) + j)) (zip ls [0..<length ls])\<rparr>"
    by (rule Cons.IH[OF k1(1)])
  also have "\<dots> = rm\<lparr>heap := (heap rm)\<lparr>arrays := arrays (heap rm)
                      @ replicate (length (l # ls)) ?ks\<rparr>,
        ref_delivered := ref_delivered rm
          @ map (\<lambda>(l, j). (l, ?n + j)) (zip (l # ls) [0..<length (l # ls)])\<rparr>"
    unfolding k1(2,3) z by (simp add: rm1_def split_def comp_def)
  finally show ?case .
qed

lemma ref_notify_effect:
  assumes "keys_ref rm < length (arrays (heap rm))"
  shows "ref_notify rm
    = rm\<lparr>heap := (heap rm)\<lparr>arrays := arrays (heap rm)
                      @ replicate (length (ref_listeners rm)) (arrays (heap rm) ! keys_ref rm)\<rparr>,
        ref_delivered := ref_delivered rm
          @ map (\<lambda>(l, j). (l, length (arrays (heap rm)) + j))
              (zip (ref_listeners rm) [0..<length (ref_listeners rm)])\<rparr>"
  unfolding ref_notify_def by (rule ref_notify_fold[OF assms])

text \<open>
  Claim C4, as amended. \<open>getKeyStatuses\<close> returns, and \<open>notify\<close> passes to each
  listener, a new array that holds the references of \<open>this.keys\<close>: a shallow copy. The
  array is not \<open>this.keys\<close>, so whatever the caller does to the array itself leaves the
  pool's credential states as they are; its elements are the pool's own key objects, so
  an assignment to a field of an element is an assignment to the pool's state. The
  states the returned array shows are those the value model of \<open>getKeyStatuses\<close>
  returns.
\<close>

theorem snapshot_is_shallow_copy:
  assumes "ref_wf rm" and "pool_state rm = keys m"
  shows "(case ref_getKeyStatuses today rm of
            (rm', a) \<Rightarrow>
              a \<noteq> keys_ref rm' \<and>
              arrays (heap rm') ! a = arrays (heap rm') ! keys_ref rm' \<and>
              pool_state rm' = keys (fst (getKeyStatuses today m)) \<and>
              map (\<lambda>r. objects (heap rm') ! r) (arrays (heap rm') ! a) = snd (getKeyStatuses today m) \<and>
              (\<forall>xs. pool_state (rm'\<lparr>heap := set_array a xs (heap rm')\<rparr>) = pool_state rm') \<and>
              (\<forall>i f. i < length (pool_state rm') \<longrightarrow>
                 pool_state (rm'\<lparr>heap := write_field a i f (heap rm')\<rparr>) ! i = f (pool_state rm' ! i))) \<and>
         map fst (drop (length (ref_delivered rm)) (ref_delivered (ref_notify rm))) = ref_listeners rm \<and>
         pool_state (ref_notify rm) = pool_state rm \<and>
         (\<forall>(l, a) \<in> set (drop (length (ref_delivered rm)) (ref_delivered (ref_notify rm))).
            a \<noteq> keys_ref (ref_notify rm) \<and>
            arrays (heap (ref_notify rm)) ! a = arrays (heap (ref_notify rm)) ! keys_ref (ref_notify rm) \<and>
            (\<forall>xs. pool_state ((ref_notify rm)\<lparr>heap := set_array a xs (heap (ref_notify rm))\<rparr>)
                   = pool_state (ref_notify rm)) \<and>
            (\<forall>i f. i < length (pool_state rm) \<longrightarrow>
               pool_state ((ref_notify rm)\<lparr>heap := write_field a i f (heap (ref_notify rm))\<rparr>) ! i
                 = f (pool_state (ref_notify rm) ! i)))"
proof (intro conjI)
  let ?r = "ref_checkDailyReset today rm"
  let ?n = "length (arrays (heap rm))"
  let ?ks = "arrays (heap rm) ! keys_ref rm"
  note cr = ref_checkDailyReset_state[OF assms(1), of today]
  have kr: "keys_ref rm < ?n" and inr: "\<And>i. i < length ?ks \<Longrightarrow> ?ks ! i < length (objects (heap rm))"
    using assms(1) by (simp_all add: ref_wf_def list_all_length)
  define rm' where "rm' = ?r\<lparr>heap := (heap ?r)\<lparr>arrays := arrays (heap ?r) @ [?ks]\<rparr>\<rparr>"
  have g: "ref_getKeyStatuses today rm = (rm', ?n)"
    by (simp add: ref_getKeyStatuses_def Let_def spread_def alloc_array_def rm'_def cr(3,4))
  have a': "arrays (heap rm') = arrays (heap rm) @ [?ks]" and k': "keys_ref rm' = keys_ref rm"
    and o': "objects (heap rm') = objects (heap ?r)"
    by (simp_all add: rm'_def cr(3,4))
  have same: "arrays (heap rm') ! ?n = arrays (heap rm') ! keys_ref rm'"
    using kr by (simp add: a' k' nth_append)
  have "pool_state rm' = pool_state ?r"
    using kr by (simp add: pool_state_def a' k' o' nth_append cr(3,4))
  then have ps: "pool_state rm' = map (reset_key today) (keys m)"
    using cr(1) assms(2) by simp
  have wf': "\<And>i. i < length (pool_state rm') \<Longrightarrow>
      arrays (heap rm') ! keys_ref rm' ! i < length (objects (heap rm'))"
    using cr(2) kr by (simp add: pool_state_def a' k' o' nth_append ref_wf_def list_all_length cr(3,4))
  have "?n \<noteq> keys_ref rm' \<and>
        arrays (heap rm') ! ?n = arrays (heap rm') ! keys_ref rm' \<and>
        pool_state rm' = keys (fst (getKeyStatuses today m)) \<and>
        map (\<lambda>r. objects (heap rm') ! r) (arrays (heap rm') ! ?n) = snd (getKeyStatuses today m) \<and>
        (\<forall>xs. pool_state (rm'\<lparr>heap := set_array ?n xs (heap rm')\<rparr>) = pool_state rm') \<and>
        (\<forall>i f. i < length (pool_state rm') \<longrightarrow>
           pool_state (rm'\<lparr>heap := write_field ?n i f (heap rm')\<rparr>) ! i = f (pool_state rm' ! i))"
  proof (intro conjI allI impI)
    show "?n \<noteq> keys_ref rm'"
      using kr by (simp add: k')
    show "arrays (heap rm') ! ?n = arrays (heap rm') ! keys_ref rm'"
      by (rule same)
    show "pool_state rm' = keys (fst (getKeyStatuses today m))"
      by (simp add: ps getKeyStatuses_def checkDailyReset_def Let_def)
    show "map (\<lambda>r. objects (heap rm') ! r) (arrays (heap rm') ! ?n) = snd (getKeyStatuses today m)"
      using ps unfolding same by (simp add: pool_state_def getKeyStatuses_def checkDailyReset_def Let_def)
    show "pool_state (rm'\<lparr>heap := set_array ?n xs (heap rm')\<rparr>) = pool_state rm'" for xs
      using kr by (intro set_array_other) (simp add: k')
    show "pool_state (rm'\<lparr>heap := write_field ?n i f (heap rm')\<rparr>) ! i = f (pool_state rm' ! i)"
      if "i < length (pool_state rm')" for i f
      using that wf'[OF that] by (intro write_field_visible[OF same]) (simp_all add: pool_state_def)
  qed
  then show "case ref_getKeyStatuses today rm of
            (rm', a) \<Rightarrow>
              a \<noteq> keys_ref rm' \<and>
              arrays (heap rm') ! a = arrays (heap rm') ! keys_ref rm' \<and>
              pool_state rm' = keys (fst (getKeyStatuses today m)) \<and>
              map (\<lambda>r. objects (heap rm') ! r) (arrays (heap rm') ! a) = snd (getKeyStatuses today m) \<and>
              (\<forall>xs. pool_state (rm'\<lparr>heap := set_array a xs (heap rm')\<rparr>) = pool_state rm') \<and>
              (\<forall>i f. i < length (pool_state rm') \<longrightarrow>
                 pool_state (rm'\<lparr>heap := write_field a i f (heap rm')\<rparr>) ! i = f (pool_state rm' ! i))"
    unfolding g prod.case .
  note ne = ref_notify_effect[OF kr]
  let ?ls = "ref_listeners rm"
  have an: "arrays (heap (ref_notify rm)) = arrays (heap rm) @ replicate (length ?ls) ?ks"
    and kn: "keys_ref (ref_notify rm) = keys_ref rm"
    and on: "objects (heap (ref_notify rm)) = objects (heap rm)"
    and dn: "drop (length (ref_delivered rm)) (ref_delivered (ref_notify rm))
               = map (\<lambda>(l, j). (l, ?n + j)) (zip ?ls [0..<length ?ls])"
    unfolding ne by simp_all
  show "map fst (drop (length (ref_delivered rm)) (ref_delivered (ref_notify rm))) = ref_listeners rm"
    unfolding dn by (simp add: split_def comp_def map_fst_zip del: upt_Suc)
  show psn: "pool_state (ref_notify rm) = pool_state rm"
    using kr by (simp add: pool_state_def an kn on nth_append)
  show "\<forall>(l, a) \<in> set (drop (length (ref_delivered rm)) (ref_delivered (ref_notify rm))).
            a \<noteq> keys_ref (ref_notify rm) \<and>
            arrays (heap (ref_notify rm)) ! a = arrays (heap (ref_notify rm)) ! keys_ref (ref_notify rm) \<and>
            (\<forall>xs. pool_state ((ref_notify rm)\<lparr>heap := set_array a xs (heap (ref_notify rm))\<rparr>)
                   = pool_state (ref_notify rm)) \<and>
            (\<forall>i f. i < length (pool_state rm) \<longrightarrow>
               pool_state ((ref_notify rm)\<lparr>heap := write_field a i f (heap (ref_notify rm))\<rparr>) ! i
                 = f (pool_state (ref_notify rm) ! i))"
  proof (intro ballI, clarify, intro conjI allI impI)
    fix l a assume "(l, a) \<in> set (drop (length (ref_delivered rm)) (ref_delivered (ref_notify rm)))"
    then obtain j where j: "j < length ?ls" "a = ?n + j"
      unfolding dn by (auto simp: set_zip simp del: upt_Suc)
    show ne': "a \<noteq> keys_ref (ref_notify rm)"
      using kr j by (simp add: kn)
    show same': "arrays (heap (ref_notify rm)) ! a
        = arrays (heap (ref_notify rm)) ! keys_ref (ref_notify rm)"
      using kr j by (simp add: an kn nth_append)
    show "pool_state ((ref_notify rm)\<lparr>heap := set_array a xs (heap (ref_notify rm))\<rparr>)
        = pool_state (ref_notify rm)" for xs
      using ne' by (rule set_array_other)
    show "pool_state ((ref_notify rm)\<lparr>heap := write_field a i f (heap (ref_notify rm))\<rparr>) ! i
        = f (pool_state (ref_notify rm) ! i)"
      if "i < length (pool_state rm)" for i f
    proof (rule write_field_visible[OF same'])
      show "i < length (arrays (heap (ref_notify rm)) ! keys_ref (ref_notify rm))"
        using that kr by (simp add: pool_state_def an kn nth_append)
      then show "arrays (heap (ref_notify rm)) ! keys_ref (ref_notify rm) ! i
          < length (objects (heap (ref_notify rm)))"
        using kr inr[of i] by (simp add: an kn on nth_append)
    qed
  qed
qed

lemma ref_two_key_pool_eval:
  "ref_two_key_pool =
     \<lparr>heap = \<lparr>objects =
        [\<lparr>key = ascii ''k1'', status = available, lastUsed = None, requestCount = 0,
          lastResetDate = ascii ''2025-01-01'', errorMessage = None\<rparr>,
         \<lparr>key = ascii ''k2'', status = available, lastUsed = None, requestCount = 0,
          lastResetDate = ascii ''2025-01-01'', errorMessage = None\<rparr>],
        arrays = [[0, 1]]\<rparr>,
      keys_ref = 0, ref_listeners = [7], ref_delivered = []\<rparr>"
  by (simp add: ref_two_key_pool_def ref_new_def trim_plain upt_conv_Cons)

lemma ref_two_key_pool_snapshot:
  "ref_getKeyStatuses (ascii ''2025-01-01'') ref_two_key_pool =
     (ref_two_key_pool\<lparr>heap := (heap ref_two_key_pool)\<lparr>arrays := [[0, 1], [0, 1]]\<rparr>\<rparr>, 1)"
  by (simp add: ref_two_key_pool_eval ref_getKeyStatuses_def ref_checkDailyReset_def
      spread_def alloc_array_def reset_key_def Let_def)

lemma ref_two_key_pool_notify:
  "ref_notify ref_two_key_pool =
     ref_two_key_pool\<lparr>heap := (heap ref_two_key_pool)\<lparr>arrays := [[0, 1], [0, 1]]\<rparr>,
                      ref_delivered := [(7, 1)]\<rparr>"
  by (simp add: ref_two_key_pool_eval ref_notify_def spread_def alloc_array_def Let_def)

theorem snapshot_is_shallow_copy_witness:
  "ref_wf ref_two_key_pool \<and> pool_state ref_two_key_pool = keys two_key_pool \<and>
   snd (ref_getKeyStatuses (ascii ''2025-01-01'') ref_two_key_pool) = 1 \<and>
   keys_ref (fst (ref_getKeyStatuses (ascii ''2025-01-01'') ref_two_key_pool)) = 0 \<and>
   pool_state ((fst (ref_getKeyStatuses (ascii ''2025-01-01'') ref_two_key_pool))
       \<lparr>heap := set_array 1 []
          (heap (fst (ref_getKeyStatuses (ascii ''2025-01-01'') ref_two_key_pool)))\<rparr>)
     = keys two_key_pool \<and>
   drop (length (ref_delivered ref_two_key_pool)) (ref_delivered (ref_notify ref_two_key_pool))
     = [(7, 1)] \<and>
   pool_state ((ref_notify ref_two_key_pool)
       \<lparr>heap := set_array 1 [] (heap (ref_notify ref_two_key_pool))\<rparr>)
     = keys two_key_pool"
proof -
  let ?d = "ascii ''2025-01-01''"
  have h: "ref_wf ref_two_key_pool" "pool_state ref_two_key_pool = keys two_key_pool"
    by (simp_all add: ref_wf_def pool_state_def ref_two_key_pool_eval two_key_pool_eval)
  note t = snapshot_is_shallow_copy[OF h, of ?d]
  have g: "ref_getKeyStatuses ?d ref_two_key_pool
      = (fst (ref_getKeyStatuses ?d ref_two_key_pool), 1)"
    by (simp add: ref_two_key_pool_snapshot)
  have same_day: "keys (fst (getKeyStatuses ?d two_key_pool)) = keys two_key_pool"
    by (simp add: getKeyStatuses_def checkDailyReset_def reset_key_def two_key_pool_eval Let_def)
  from t have "pool_state ((fst (ref_getKeyStatuses ?d ref_two_key_pool))
       \<lparr>heap := set_array 1 [] (heap (fst (ref_getKeyStatuses ?d ref_two_key_pool)))\<rparr>)
     = keys (fst (getKeyStatuses ?d two_key_pool))"
    by (subst (asm) g, simp only: prod.case)
  then have a: "pool_state ((fst (ref_getKeyStatuses ?d ref_two_key_pool))
       \<lparr>heap := set_array 1 [] (heap (fst (ref_getKeyStatuses ?d ref_two_key_pool)))\<rparr>)
     = keys two_key_pool"
    by (simp only: same_day)
  have dl: "drop (length (ref_delivered ref_two_key_pool)) (ref_delivered (ref_notify ref_two_key_pool))
     = [(7, 1)]"
    by (simp add: ref_two_key_pool_notify) (simp add: ref_two_key_pool_eval)
  from t have "\<forall>(l, a) \<in> set [(7::nat, 1::nat)].
      (\<forall>xs. pool_state ((ref_notify ref_two_key_pool)
                \<lparr>heap := set_array a xs (heap (ref_notify ref_two_key_pool))\<rparr>)
             = pool_state (ref_notify ref_two_key_pool))"
    unfolding dl by blast
  moreover from t have "pool_state (ref_notify ref_two_key_pool) = pool_state ref_two_key_pool"
    by blast
  ultimately have b: "pool_state ((ref_notify ref_two_key_pool)
       \<lparr>heap := set_array 1 [] (heap (ref_notify ref_two_key_pool))\<rparr>) = keys two_key_pool"
    using h(2) by simp
  show ?thesis
    using h a b dl by (simp add: ref_two_key_pool_snapshot) (simp add: ref_two_key_pool_eval)
qed

text \<open>
  Claim C4 as stated fails. A caller takes the array \<open>getKeyStatuses\<close> returns and
  assigns \<open>'error'\<close> to the \<open>status\<close> of its first element: the pool's first key is
  now in state \<open>error\<close>. A listener does the same to the second element of the array
  it was passed by \<open>notify\<close>, with the same effect on the pool's second key.
\<close>

theorem snapshot_mutation_counterexample:
  "(case ref_getKeyStatuses (ascii ''2025-01-01'') ref_two_key_pool of
      (rm', a) \<Rightarrow>
        map status (pool_state rm') = [available, available] \<and>
        map status (pool_state
          (rm'\<lparr>heap := write_field a 0 (\<lambda>k. k\<lparr>status := error\<rparr>) (heap rm')\<rparr>))
          = [error, available]) \<and>
   ref_delivered (ref_notify ref_two_key_pool) = [(7, 1)] \<and>
   map status (pool_state (ref_notify ref_two_key_pool)) = [available, available] \<and>
   map status (pool_state
     ((ref_notify ref_two_key_pool)
        \<lparr>heap := write_field 1 1 (\<lambda>k. k\<lparr>status := error\<rparr>) (heap (ref_notify ref_two_key_pool))\<rparr>))
     = [available, error]"
  by (simp add: ref_two_key_pool_snapshot ref_two_key_pool_notify)
     (simp add: ref_two_key_pool_eval pool_state_def write_field_def)
end
